theory Spec2Isabelle
  imports Main "HOL-Library.Word"
begin

section \<open>Machine integers\<close>

text \<open>
  The two programs are written for a 64-bit x86 target (\<^verbatim>\<open>immintrin.h\<close>, LP64):
  \<^verbatim>\<open>size_t\<close> is an unsigned 64-bit integer, \<^verbatim>\<open>int\<close> a 32-bit two's complement
  integer, \<^verbatim>\<open>long long\<close> a 64-bit two's complement integer and \<^verbatim>\<open>float\<close> is
  IEEE 754 binary32.
\<close>

type_synonym size_t = "64 word"
type_synonym c_int = "32 word"

section \<open>The type float\<close>

text \<open>
  A binary32 value is a signed zero, a finite number, an infinity or a NaN. Every finite
  binary32 number is an integer multiple of the smallest subnormal \<open>2^-149\<close>, so
  \<open>Finite s k\<close> stands for \<open>(-1)^s * k * 2^-149\<close>; \<open>s\<close> is the sign bit. The largest
  finite number is \<open>(2^24 - 1) * 2^104\<close>, below \<open>2^128 = 2^277 * 2^-149\<close>.
  NaN payloads are not told apart.
\<close>

datatype f32 = Finite bool nat | Infinity bool | NaN

text \<open>The number of binary digits of a natural number.\<close>

fun bitlen :: "nat \<Rightarrow> nat" where
  "bitlen n = (if n = 0 then 0 else Suc (bitlen (n div 2)))"

declare bitlen.simps [simp del]

text \<open>
  \<open>round_to N s\<close> is the multiple of \<open>2^s\<close> nearest to \<open>N\<close>, the even multiple on a tie
  (the default rounding mode). \<open>round24 N smin\<close> keeps 24 significant binary digits of
  \<open>N\<close>, and never rounds more finely than to a multiple of \<open>2^smin\<close>.
\<close>

definition round_to :: "nat \<Rightarrow> nat \<Rightarrow> nat" where
  "round_to N s =
     (let q = N div 2 ^ s; r = N mod 2 ^ s
      in (if 2 * r < 2 ^ s \<or> (2 * r = 2 ^ s \<and> even q) then q else q + 1) * 2 ^ s)"

definition round24 :: "nat \<Rightarrow> nat \<Rightarrow> nat" where
  "round24 N smin = round_to N (max (bitlen N - 24) smin)"

text \<open>A rounded magnitude that reaches \<open>2^128\<close> overflows to an infinity.\<close>

definition pack :: "bool \<Rightarrow> nat \<Rightarrow> f32" where
  "pack s m = (if m < 2 ^ 277 then Finite s m else Infinity s)"

text \<open>
  Addition of two floats: the C operator \<^verbatim>\<open>+\<close> on \<^verbatim>\<open>float\<close> operands and each lane
  of \<^verbatim>\<open>_mm_add_ps\<close>. The exact sum is rounded once; an exact zero sum of two numbers of
  opposite sign is \<open>+0\<close>.
\<close>

fun fadd :: "f32 \<Rightarrow> f32 \<Rightarrow> f32" where
  "fadd (Finite s j) (Finite t k) =
     (if s = t then pack s (round24 (j + k) 0)
      else if j = k then Finite False 0
      else if k < j then pack s (round24 (j - k) 0)
      else pack t (round24 (k - j) 0))"
| "fadd (Finite s j) (Infinity t) = Infinity t"
| "fadd (Infinity s) (Finite t k) = Infinity s"
| "fadd (Infinity s) (Infinity t) = (if s = t then Infinity s else NaN)"
| "fadd NaN y = NaN"
| "fadd x NaN = NaN"

text \<open>
  Multiplication of two floats (the C operator \<^verbatim>\<open>*\<close>). The exact product of
  \<open>j * 2^-149\<close> and \<open>k * 2^-149\<close> is \<open>j * k * 2^-298\<close>; it is rounded to 24 significant
  digits and to a multiple of \<open>2^-149\<close>.
\<close>

fun fmul :: "f32 \<Rightarrow> f32 \<Rightarrow> f32" where
  "fmul (Finite s j) (Finite t k) = pack (s \<noteq> t) (round24 (j * k) 149 div 2 ^ 149)"
| "fmul (Finite s j) (Infinity t) = (if j = 0 then NaN else Infinity (s \<noteq> t))"
| "fmul (Infinity s) (Finite t k) = (if k = 0 then NaN else Infinity (s \<noteq> t))"
| "fmul (Infinity s) (Infinity t) = Infinity (s \<noteq> t)"
| "fmul NaN y = NaN"
| "fmul x NaN = NaN"

text \<open>The C operator \<^verbatim>\<open>==\<close> on floats: a NaN equals nothing, the two zeros are equal.\<close>

fun feq :: "f32 \<Rightarrow> f32 \<Rightarrow> bool" where
  "feq (Finite s j) (Finite t k) = (j = k \<and> (s = t \<or> j = 0))"
| "feq (Infinity s) (Infinity t) = (s = t)"
| "feq x y = False"

text \<open>
  Conversion of an integer to float, written \<open>float(i)\<close> in the specification: the
  nearest binary32 number. \<open>f32_of_size\<close> is the cast \<^verbatim>\<open>(float)i\<close> of a \<^verbatim>\<open>size_t\<close>,
  \<open>f32_of_int\<close> the conversion of an \<^verbatim>\<open>int\<close> operand.
\<close>

definition f32_of_nat :: "nat \<Rightarrow> f32" where
  "f32_of_nat i = pack False (round24 (i * 2 ^ 149) 0)"

definition f32_of_size :: "size_t \<Rightarrow> f32" where
  "f32_of_size i = f32_of_nat (unat i)"

definition f32_of_int :: "c_int \<Rightarrow> f32" where
  "f32_of_int x =
     (if sint x < 0 then pack True (round24 (nat (- sint x) * 2 ^ 149) 0)
      else f32_of_nat (nat (sint x)))"

section \<open>Memory\<close>

text \<open>
  A pointer to float is the byte address of the first element of a block. The heap maps
  the base address of every allocated block to the floats it holds; a block that was
  never allocated, or was released, has no entry. An access outside an allocated block is
  undefined behaviour in C and is the fault \<open>Invalid_access\<close> here; \<open>Misaligned\<close> is the
  fault of an aligned 16-byte vector access at an address that is not a multiple of 16.
\<close>

type_synonym ptr = nat
type_synonym heap = "ptr \<rightharpoonup> f32 list"

datatype fault = Invalid_access | Misaligned | Out_of_range

text \<open>The element read \<^verbatim>\<open>p[i]\<close> and the element write \<^verbatim>\<open>p[i] = v\<close>.\<close>

definition load :: "heap \<Rightarrow> ptr \<Rightarrow> size_t \<Rightarrow> fault + f32" where
  "load h p i =
     (case h p of
        None \<Rightarrow> Inl Invalid_access
      | Some xs \<Rightarrow> if unat i < length xs then Inr (xs ! unat i) else Inl Invalid_access)"

definition store :: "heap \<Rightarrow> ptr \<Rightarrow> size_t \<Rightarrow> f32 \<Rightarrow> fault + heap" where
  "store h p i v =
     (case h p of
        None \<Rightarrow> Inl Invalid_access
      | Some xs \<Rightarrow>
          if unat i < length xs then Inr (h(p \<mapsto> xs[unat i := v])) else Inl Invalid_access)"

section \<open>The scalar kernel (compute\_simple.c)\<close>

text \<open>
  \<^verbatim>\<open>
  void compute(float* r, float const* a, float const* b, const size_t n)
  {
      for (size_t i = 0; i < n; i++) {
          r[i] = a[i] + b[i] ;
      }
  }
  \<close>
  \<open>compute_loop\<close> is the loop from the value \<open>i\<close> of its counter on.
\<close>

function compute_loop :: "heap \<Rightarrow> ptr \<Rightarrow> ptr \<Rightarrow> ptr \<Rightarrow> size_t \<Rightarrow> size_t \<Rightarrow> fault + heap" where
  "compute_loop h r a b n i =
     (if i < n then
        (case load h a i of
           Inl e \<Rightarrow> Inl e
         | Inr x \<Rightarrow>
             (case load h b i of
                Inl e \<Rightarrow> Inl e
              | Inr y \<Rightarrow>
                  (case store h r i (fadd x y) of
                     Inl e \<Rightarrow> Inl e
                   | Inr h' \<Rightarrow> compute_loop h' r a b n (i + 1))))
      else Inr h)"
  by pat_completeness auto
termination
proof (relation "measure (\<lambda>(h, r, a, b, n, i). unat n - unat i)")
  show "wf (measure (\<lambda>(h, r, a, b, n, i). unat n - unat i))"
    by simp
next
  fix h h' :: heap and r a b :: ptr and n i :: size_t
  assume "i < n"
  then have less: "unat i < unat n"
    by (simp add: word_less_nat_alt)
  moreover have "unat n < 2 ^ 64"
    using unsigned_less [of n] by simp
  ultimately have "unat i + unat (1 :: size_t) < 2 ^ LENGTH(64)"
    by simp
  then have "unat (i + 1) = unat i + 1"
    by (simp add: unat_add_lem [THEN iffD1])
  with less show "((h', r, a, b, n, i + 1), (h, r, a, b, n, i))
      \<in> measure (\<lambda>(h, r, a, b, n, i). unat n - unat i)"
    by simp
qed

declare compute_loop.simps [simp del]

definition compute :: "heap \<Rightarrow> ptr \<Rightarrow> ptr \<Rightarrow> ptr \<Rightarrow> size_t \<Rightarrow> fault + heap" where
  "compute h r a b n = compute_loop h r a b n 0"

section \<open>The vectorised kernel (compute\_sse.c)\<close>

text \<open>
  A value of type \<^verbatim>\<open>__m128\<close> holds four floats. \<^verbatim>\<open>_mm_load_ps(&p[i])\<close> reads the
  four floats \<^verbatim>\<open>p[i] .. p[i+3]\<close> from the 16-byte aligned address \<^verbatim>\<open>&p[i]\<close>, which is
  \<open>p + sizeof_float * i\<close>; \<^verbatim>\<open>_mm_add_ps\<close> adds lane by lane; \<^verbatim>\<open>_mm_store_ps(&p[i], v)\<close>
  writes the four floats to the 16-byte aligned address \<^verbatim>\<open>&p[i]\<close>.
\<close>

type_synonym m128 = "f32 \<times> f32 \<times> f32 \<times> f32"

definition sizeof_float :: nat where
  "sizeof_float = 4"

definition mm_load_ps :: "heap \<Rightarrow> ptr \<Rightarrow> size_t \<Rightarrow> fault + m128" where
  "mm_load_ps h p i =
     (case h p of
        None \<Rightarrow> Inl Invalid_access
      | Some xs \<Rightarrow>
          if \<not> unat i + 4 \<le> length xs then Inl Invalid_access
          else if (p + sizeof_float * unat i) mod 16 \<noteq> 0 then Inl Misaligned
          else Inr (xs ! unat i, xs ! (unat i + 1), xs ! (unat i + 2), xs ! (unat i + 3)))"

definition mm_add_ps :: "m128 \<Rightarrow> m128 \<Rightarrow> m128" where
  "mm_add_ps va vb =
     (case va of (a0, a1, a2, a3) \<Rightarrow>
      case vb of (b0, b1, b2, b3) \<Rightarrow> (fadd a0 b0, fadd a1 b1, fadd a2 b2, fadd a3 b3))"

definition mm_store_ps :: "heap \<Rightarrow> ptr \<Rightarrow> size_t \<Rightarrow> m128 \<Rightarrow> fault + heap" where
  "mm_store_ps h p i v =
     (case h p of
        None \<Rightarrow> Inl Invalid_access
      | Some xs \<Rightarrow>
          if \<not> unat i + 4 \<le> length xs then Inl Invalid_access
          else if (p + sizeof_float * unat i) mod 16 \<noteq> 0 then Inl Misaligned
          else
            (case v of (v0, v1, v2, v3) \<Rightarrow>
               Inr (h(p \<mapsto> xs[unat i := v0, unat i + 1 := v1, unat i + 2 := v2, unat i + 3 := v3]))))"

text \<open>
  \<^verbatim>\<open>
  void compute_sse(float* r, float const* a, float const* b, const int n)
  {
      __m128 sse_a, sse_b, sse_r;

      size_t nb_items = (128 / (sizeof(float)*8));
      const size_t nsse = (n/nb_items)*nb_items;

      for (size_t i = 0; i < nsse; i += 4) {
          sse_a = _mm_load_ps(&a[i]);
          sse_b = _mm_load_ps(&b[i]);
          sse_r = _mm_add_ps(sse_a, sse_b);
          _mm_store_ps(&r[i], sse_r);
      }
  }
  \<close>
  The counter \<open>i\<close> is a \<^verbatim>\<open>size_t\<close> and \<^verbatim>\<open>i += 4\<close> wraps around, so the loop on its
  own need not end: \<open>sse_loop\<close> is a partial function and \<open>None\<close> stands for a loop
  that runs forever. In \<^verbatim>\<open>n/nb_items\<close> the \<^verbatim>\<open>int\<close> operand \<open>n\<close> is converted to
  \<^verbatim>\<open>size_t\<close> (sign extension, \<open>scast\<close>) and the division is unsigned.
\<close>

definition nb_items :: size_t where
  "nb_items = 128 div (of_nat sizeof_float * 8)"

definition nsse_of :: "c_int \<Rightarrow> size_t" where
  "nsse_of n = (scast n div nb_items) * nb_items"

partial_function (option) sse_loop ::
  "heap \<Rightarrow> ptr \<Rightarrow> ptr \<Rightarrow> ptr \<Rightarrow> size_t \<Rightarrow> size_t \<Rightarrow> (fault + heap) option" where
  "sse_loop h r a b nsse i =
     (if i < nsse then
        (case mm_load_ps h a i of
           Inl e \<Rightarrow> Some (Inl e)
         | Inr sse_a \<Rightarrow>
             (case mm_load_ps h b i of
                Inl e \<Rightarrow> Some (Inl e)
              | Inr sse_b \<Rightarrow>
                  (case mm_store_ps h r i (mm_add_ps sse_a sse_b) of
                     Inl e \<Rightarrow> Some (Inl e)
                   | Inr h' \<Rightarrow> sse_loop h' r a b nsse (i + 4))))
      else Some (Inr h))"

declare sse_loop.simps [code]

definition compute_sse :: "heap \<Rightarrow> ptr \<Rightarrow> ptr \<Rightarrow> ptr \<Rightarrow> c_int \<Rightarrow> (fault + heap) option" where
  "compute_sse h r a b n = sse_loop h r a b (nsse_of n) 0"

section \<open>The driver (main of both programs)\<close>

subsection \<open>Reading the element count\<close>

text \<open>
  \<^verbatim>\<open>atoll\<close> skips white space, reads an optional sign and then decimal digits up to
  the first character that is not a digit; with no digit at all its value is 0. A value
  outside \<^verbatim>\<open>long long\<close> is undefined behaviour in C: \<open>None\<close> here.
\<close>

definition isspace :: "char \<Rightarrow> bool" where
  "isspace c = (of_char c = (32 :: nat) \<or> (9 \<le> (of_char c :: nat) \<and> (of_char c :: nat) \<le> 13))"

definition isdigit :: "char \<Rightarrow> bool" where
  "isdigit c = (48 \<le> (of_char c :: nat) \<and> (of_char c :: nat) \<le> 57)"

fun digits_value :: "int \<Rightarrow> string \<Rightarrow> int" where
  "digits_value acc [] = acc"
| "digits_value acc (c # cs) =
     (if isdigit c then digits_value (10 * acc + (of_char c - 48)) cs else acc)"

definition atoll :: "string \<Rightarrow> int option" where
  "atoll s =
     (let t = dropWhile isspace s;
          neg = (t \<noteq> [] \<and> hd t = CHR ''-'');
          u = (if t \<noteq> [] \<and> (hd t = CHR ''-'' \<or> hd t = CHR ''+'') then tl t else t);
          v = (if neg then - digits_value 0 u else digits_value 0 u)
      in if - (2 ^ 63) \<le> v \<and> v < 2 ^ 63 then Some v else None)"

subsection \<open>Aligned allocation\<close>

text \<open>
  What \<^verbatim>\<open>posix_memalign\<close> answers is up to the platform: \<open>ENOMEM\<close> when the request
  cannot be satisfied, or \<open>Granted k g\<close>, a fresh block at the address \<open>alignment * k\<close>
  whose floats hold the indeterminate values \<open>g 0, g 1, ...\<close>. An allocator never grants
  the address of a block that is still allocated; the model does not enforce this, so
  the statements that depend on it assume that the granted \<open>k\<close> are distinct. The call
  \<^verbatim>\<open>posix_memalign((void**) &p, alignment, sz)\<close> returns the new heap, the new value
  of the pointer variable \<open>p\<close> (left as it was on failure) and the status.
\<close>

datatype alloc_outcome = ENOMEM | Granted nat "nat \<Rightarrow> f32"

definition posix_memalign ::
  "heap \<Rightarrow> ptr \<Rightarrow> nat \<Rightarrow> size_t \<Rightarrow> alloc_outcome \<Rightarrow> heap \<times> ptr \<times> c_int" where
  "posix_memalign h p alignment sz outcome =
     (case outcome of
        ENOMEM \<Rightarrow> (h, p, 12)
      | Granted k g \<Rightarrow>
          (h(alignment * k \<mapsto> map g [0..<unat sz div sizeof_float]), alignment * k, 0))"

subsection \<open>The input generator\<close>

text \<open>
  \<^verbatim>\<open>
  for (size_t i = 0; i < n; i++) {
      data1[i] = (float)i;
      data2[i] = (float)i*2;
  }
  \<close>
  The cast binds tighter than the product: \<^verbatim>\<open>(float)i*2\<close> is the float product of
  \<^verbatim>\<open>(float)i\<close> and the \<^verbatim>\<open>int\<close> constant 2 converted to float.
\<close>

function fill_loop :: "heap \<Rightarrow> ptr \<Rightarrow> ptr \<Rightarrow> size_t \<Rightarrow> size_t \<Rightarrow> fault + heap" where
  "fill_loop h data1 data2 n i =
     (if i < n then
        (case store h data1 i (f32_of_size i) of
           Inl e \<Rightarrow> Inl e
         | Inr h1 \<Rightarrow>
             (case store h1 data2 i (fmul (f32_of_size i) (f32_of_int 2)) of
                Inl e \<Rightarrow> Inl e
              | Inr h2 \<Rightarrow> fill_loop h2 data1 data2 n (i + 1)))
      else Inr h)"
  by pat_completeness auto
termination
proof (relation "measure (\<lambda>(h, data1, data2, n, i). unat n - unat i)")
  show "wf (measure (\<lambda>(h, data1, data2, n, i). unat n - unat i))"
    by simp
next
  fix h h2 :: heap and data1 data2 :: ptr and n i :: size_t
  assume "i < n"
  then have less: "unat i < unat n"
    by (simp add: word_less_nat_alt)
  moreover have "unat n < 2 ^ 64"
    using unsigned_less [of n] by simp
  ultimately have "unat i + unat (1 :: size_t) < 2 ^ LENGTH(64)"
    by simp
  then have "unat (i + 1) = unat i + 1"
    by (simp add: unat_add_lem [THEN iffD1])
  with less show "((h2, data1, data2, n, i + 1), (h, data1, data2, n, i))
      \<in> measure (\<lambda>(h, data1, data2, n, i). unat n - unat i)"
    by simp
qed

declare fill_loop.simps [simp del]

definition fill :: "heap \<Rightarrow> ptr \<Rightarrow> ptr \<Rightarrow> size_t \<Rightarrow> fault + heap" where
  "fill h data1 data2 n = fill_loop h data1 data2 n 0"

subsection \<open>What a run prints and how it ends\<close>

text \<open>
  A reading of the clock is the \<^verbatim>\<open>timeval\<close> that \<^verbatim>\<open>gettimeofday\<close> fills (seconds and
  microseconds). The elapsed time that is printed is computed from the two readings in
  double precision; the line \<open>Exec_time\<close> records the message and the two readings.
  A run ends when \<^verbatim>\<open>main\<close> returns, with its status and the heap as it is then, or at a
  fault, in the stage where it occurs.
\<close>

type_synonym timeval = "int \<times> int"

datatype line =
    Usage string
  | Using_table nat
  | Exec_time string timeval timeval
  | Values f32 f32 f32 f32

datatype stage = Parse | Fill | Kernel | Report

datatype ending = Exited int heap | Faulted stage fault

text \<open>
  The platform's part in a run: the indeterminate values the pointer variables
  \<^verbatim>\<open>data1\<close>, \<^verbatim>\<open>data2\<close> and \<^verbatim>\<open>result\<close> hold before they are set, the answers to the
  three allocations, and the two readings of the clock.
\<close>

record env =
  junk1 :: ptr
  junk2 :: ptr
  junk3 :: ptr
  alloc1 :: alloc_outcome
  alloc2 :: alloc_outcome
  alloc3 :: alloc_outcome
  start_tv :: timeval
  end_tv :: timeval

text \<open>
  \<^verbatim>\<open>printf("%f %f %f %f\n", result[0], result[1], result[2], result[3])\<close>
\<close>

definition print_values :: "heap \<Rightarrow> ptr \<Rightarrow> fault + line" where
  "print_values h result =
     (case load h result 0 of
        Inl e \<Rightarrow> Inl e
      | Inr v0 \<Rightarrow>
          (case load h result 1 of
             Inl e \<Rightarrow> Inl e
           | Inr v1 \<Rightarrow>
               (case load h result 2 of
                  Inl e \<Rightarrow> Inl e
                | Inr v2 \<Rightarrow>
                    (case load h result 3 of
                       Inl e \<Rightarrow> Inl e
                     | Inr v3 \<Rightarrow> Inr (Values v0 v1 v2 v3)))))"

subsection \<open>main of compute\_simple.c\<close>

text \<open>
  \<open>prog\<close> is \<^verbatim>\<open>argv[0]\<close> and \<open>args\<close> the arguments after it, so \<^verbatim>\<open>argc\<close> is
  \<open>Suc (length args)\<close> and \<^verbatim>\<open>argv[1]\<close> is \<open>args ! 0\<close>. The program starts with no
  block of floats allocated. The status of each \<^verbatim>\<open>posix_memalign\<close> is stored in
  \<^verbatim>\<open>dummy\<close> and never read.
\<close>

definition main_simple :: "env \<Rightarrow> string \<Rightarrow> string list \<Rightarrow> line list \<times> ending" where
  "main_simple env prog args =
     (if Suc (length args) < 2 then ([Usage prog], Exited 1 Map.empty)
      else
        (case atoll (args ! 0) of
           None \<Rightarrow> ([], Faulted Parse Out_of_range)
         | Some v \<Rightarrow>
             (let n = (word_of_int v :: size_t);
                  out1 = [Using_table (unat n)];
                  (h1, data1, dummy) =
                     posix_memalign Map.empty (junk1 env) 32 (of_nat sizeof_float * n) (alloc1 env);
                  (h2, data2, dummy) =
                     posix_memalign h1 (junk2 env) 32 (of_nat sizeof_float * n) (alloc2 env);
                  (h3, result, dummy) =
                     posix_memalign h2 (junk3 env) 32 (of_nat sizeof_float * n) (alloc3 env)
              in
                (case fill h3 data1 data2 n of
                   Inl e \<Rightarrow> (out1, Faulted Fill e)
                 | Inr h4 \<Rightarrow>
                     (case compute h4 result data1 data2 n of
                        Inl e \<Rightarrow> (out1, Faulted Kernel e)
                      | Inr h5 \<Rightarrow>
                          (let out2 = out1 @ [Exec_time ''Execution time '' (start_tv env) (end_tv env)]
                           in
                             (case print_values h5 result of
                                Inl e \<Rightarrow> (out2, Faulted Report e)
                              | Inr vals \<Rightarrow> (out2 @ [vals], Exited 0 h5))))))))"

subsection \<open>main of compute\_sse.c\<close>

text \<open>
  The same driver around the vectorised kernel. The call
  \<^verbatim>\<open>compute_sse(result, data1, data2, n)\<close> passes the \<^verbatim>\<open>size_t\<close> count \<open>n\<close> for an
  \<^verbatim>\<open>int\<close> parameter: the value is narrowed to its low 32 bits (\<open>ucast\<close>).
\<close>

definition main_sse :: "env \<Rightarrow> string \<Rightarrow> string list \<Rightarrow> (line list \<times> ending) option" where
  "main_sse env prog args =
     (if Suc (length args) < 2 then Some ([Usage prog], Exited 1 Map.empty)
      else
        (case atoll (args ! 0) of
           None \<Rightarrow> Some ([], Faulted Parse Out_of_range)
         | Some v \<Rightarrow>
             (let n = (word_of_int v :: size_t);
                  out1 = [Using_table (unat n)];
                  (h1, data1, dummy) =
                     posix_memalign Map.empty (junk1 env) 32 (of_nat sizeof_float * n) (alloc1 env);
                  (h2, data2, dummy) =
                     posix_memalign h1 (junk2 env) 32 (of_nat sizeof_float * n) (alloc2 env);
                  (h3, result, dummy) =
                     posix_memalign h2 (junk3 env) 32 (of_nat sizeof_float * n) (alloc3 env)
              in
                (case fill h3 data1 data2 n of
                   Inl e \<Rightarrow> Some (out1, Faulted Fill e)
                 | Inr h4 \<Rightarrow>
                     (case compute_sse h4 result data1 data2 (ucast n) of
                        None \<Rightarrow> None
                      | Some (Inl e) \<Rightarrow> Some (out1, Faulted Kernel e)
                      | Some (Inr h5) \<Rightarrow>
                          (let out2 = out1 @
                             [Exec_time ''Execution time using manual sse'' (start_tv env) (end_tv env)]
                           in
                             (case print_values h5 result of
                                Inl e \<Rightarrow> Some (out2, Faulted Report e)
                              | Inr vals \<Rightarrow> Some (out2 @ [vals], Exited 0 h5))))))))"

subsection \<open>Names for the statements about the driver\<close>

text \<open>
  \<open>granted env\<close> is the set of the addresses of the blocks that the three allocations of
  a run on the platform \<open>env\<close> return. \<open>all_granted\<close> is a platform that satisfies every
  allocation, \<open>first_fails\<close> one that refuses the first; both leave the null address in
  the pointer variables that are not set.
\<close>

definition granted_at :: "alloc_outcome \<Rightarrow> ptr set" where
  "granted_at x = (case x of ENOMEM \<Rightarrow> {} | Granted k g \<Rightarrow> {32 * k})"

definition granted :: "env \<Rightarrow> ptr set" where
  "granted env = granted_at (alloc1 env) \<union> granted_at (alloc2 env) \<union> granted_at (alloc3 env)"

definition all_granted :: env where
  "all_granted =
     \<lparr>junk1 = 0, junk2 = 0, junk3 = 0,
      alloc1 = Granted 1 (\<lambda>i. NaN), alloc2 = Granted 2 (\<lambda>i. NaN), alloc3 = Granted 3 (\<lambda>i. NaN),
      start_tv = (0, 0), end_tv = (0, 250)\<rparr>"

definition first_fails :: env where
  "first_fails =
     \<lparr>junk1 = 0, junk2 = 0, junk3 = 0,
      alloc1 = ENOMEM, alloc2 = Granted 2 (\<lambda>i. NaN), alloc3 = Granted 3 (\<lambda>i. NaN),
      start_tv = (0, 0), end_tv = (0, 250)\<rparr>"

section \<open>Auxiliary facts\<close>

subsection \<open>Binary digits\<close>

lemma bitlen_0 [simp]: "bitlen 0 = 0"
  by (simp add: bitlen.simps)

lemma bitlen_pos: "0 < n \<Longrightarrow> bitlen n = Suc (bitlen (n div 2))"
  by (subst bitlen.simps) simp

lemma bitlen_double: "0 < n \<Longrightarrow> bitlen (2 * n) = Suc (bitlen n)"
  by (subst bitlen.simps) simp

lemma bitlen_upper: "n < 2 ^ bitlen n"
proof (induction n rule: bitlen.induct)
  case (1 n)
  show ?case
  proof (cases "n = 0")
    case True
    then show ?thesis by simp
  next
    case False
    with "1" have "n div 2 < 2 ^ bitlen (n div 2)" by simp
    then have "n < 2 * 2 ^ bitlen (n div 2)" by linarith
    with False show ?thesis by (simp add: bitlen_pos)
  qed
qed

lemma bitlen_lower: "0 < n \<Longrightarrow> 2 ^ (bitlen n - 1) \<le> n"
proof (induction n rule: bitlen.induct)
  case (1 n)
  show ?case
  proof (cases "n div 2 = 0")
    case True
    with "1.prems" have "n = 1" by linarith
    then show ?thesis by (simp add: bitlen_pos)
  next
    case False
    with "1" have "2 ^ (bitlen (n div 2) - 1) \<le> n div 2" by simp
    moreover have "bitlen n - 1 = Suc (bitlen (n div 2) - 1)"
      using False "1.prems" by (simp add: bitlen_pos [of n] bitlen_pos [of "n div 2"])
    ultimately show ?thesis by simp
  qed
qed

lemma bitlen_le: "n < 2 ^ k \<Longrightarrow> bitlen n \<le> k"
proof (cases "n = 0")
  case True
  then show ?thesis by simp
next
  case False
  assume "n < 2 ^ k"
  with bitlen_lower [of n] False have "(2::nat) ^ (bitlen n - 1) < 2 ^ k" by linarith
  then have "bitlen n - 1 < k" by (rule power_less_imp_less_exp [rotated]) simp
  then show ?thesis by simp
qed

lemma bitlen_mult_pow: "0 < n \<Longrightarrow> bitlen (n * 2 ^ k) = bitlen n + k"
proof (induction k)
  case 0
  then show ?case by simp
next
  case (Suc k)
  then have "bitlen (2 * (n * 2 ^ k)) = Suc (bitlen (n * 2 ^ k))"
    by (intro bitlen_double) simp
  with Suc show ?case by (simp add: mult.commute mult.left_commute)
qed

subsection \<open>Rounding\<close>

lemma round_to_dvd: "2 ^ s dvd N \<Longrightarrow> round_to N s = N"
proof -
  assume "2 ^ s dvd N"
  then have "N mod 2 ^ s = 0" "N div 2 ^ s * 2 ^ s = N" by simp_all
  then show ?thesis by (simp add: round_to_def Let_def)
qed

lemma round_to_is_multiple: "2 ^ s dvd round_to N s"
  by (simp add: round_to_def Let_def)

lemma round_to_double: "round_to (2 * N) (Suc s) = 2 * round_to N s"
proof -
  have d: "(2 * N) div (2 * 2 ^ s) = N div 2 ^ s" by simp
  have m: "(2 * N) mod (2 * 2 ^ s) = 2 * (N mod 2 ^ s)" by (rule mult_mod_right [symmetric])
  show ?thesis
    unfolding round_to_def Let_def power_Suc d m by simp
qed

lemma round_to_upper: "round_to N s \<le> (N div 2 ^ s + 1) * 2 ^ s"
  unfolding round_to_def Let_def by (simp split: if_splits)

lemma round24_double: "round24 (2 * N) 0 = 2 * round24 N 0"
proof (cases "N = 0")
  case True
  then show ?thesis by (simp add: round24_def round_to_dvd)
next
  case False
  then have bl: "bitlen (2 * N) = Suc (bitlen N)" by (simp add: bitlen_double)
  show ?thesis
  proof (cases "24 \<le> bitlen N")
    case True
    then have "bitlen (2 * N) - 24 = Suc (bitlen N - 24)" using bl by simp
    then show ?thesis by (simp add: round24_def round_to_double)
  next
    case False
    then have "bitlen (2 * N) - 24 = 0" "bitlen N - 24 = 0" using bl by simp_all
    then show ?thesis by (simp add: round24_def round_to_dvd)
  qed
qed

lemma round24_upper: "round24 N 0 \<le> 2 ^ bitlen N"
proof (cases "24 \<le> bitlen N")
  case True
  define s where "s = bitlen N - 24"
  have bl: "bitlen N = s + 24" using True by (simp add: s_def)
  have "N < 2 ^ 24 * 2 ^ s" using bitlen_upper [of N] by (simp add: bl power_add mult.commute)
  then have "N div 2 ^ s < 2 ^ 24" by (simp add: less_mult_imp_div_less)
  then have "N div 2 ^ s + 1 \<le> 2 ^ 24" by simp
  then have "(N div 2 ^ s + 1) * 2 ^ s \<le> 2 ^ 24 * 2 ^ s" by (rule mult_le_mono1)
  with round_to_upper [of N s] have "round_to N s \<le> 2 ^ 24 * 2 ^ s" by (rule le_trans)
  then show ?thesis by (simp add: round24_def s_def [symmetric] bl power_add mult.commute)
next
  case False
  then have "bitlen N - 24 = 0" by simp
  then have "round24 N 0 = N" by (simp add: round24_def round_to_dvd)
  with bitlen_upper [of N] show ?thesis by simp
qed

lemma bitlen_1: "bitlen (Suc 0) = Suc 0"
  by (subst bitlen.simps) simp

lemma bitlen_pow: "bitlen (2 ^ k) = Suc k"
  using bitlen_mult_pow [of 1 k] by (simp add: bitlen_1)

lemma fits_multiple: "K \<le> 2 ^ (s + 24) \<Longrightarrow> 2 ^ s dvd K \<Longrightarrow> 2 ^ (bitlen K - 24) dvd K"
proof (cases "K = 2 ^ (s + 24)")
  case True
  have "(2::nat) ^ (Suc (s + 24) - 24) dvd 2 ^ (s + 24)" by (rule le_imp_power_dvd) simp
  with True show ?thesis by (simp only: bitlen_pow)
next
  case False
  assume "K \<le> 2 ^ (s + 24)" and dvd: "2 ^ s dvd K"
  with False have "K < 2 ^ (s + 24)" by simp
  then have "bitlen K \<le> s + 24" by (rule bitlen_le)
  then have "(2::nat) ^ (bitlen K - 24) dvd 2 ^ s" by (intro le_imp_power_dvd) simp
  with dvd show ?thesis by (rule dvd_trans [rotated])
qed

lemma round24_fits: "2 ^ (bitlen (round24 N 0) - 24) dvd round24 N 0"
proof (rule fits_multiple)
  show "2 ^ (bitlen N - 24) dvd round24 N 0"
    by (simp add: round24_def round_to_is_multiple)
  show "round24 N 0 \<le> 2 ^ (bitlen N - 24 + 24)"
  proof (cases "24 \<le> bitlen N")
    case True
    with round24_upper [of N] show ?thesis by simp
  next
    case False
    then have "bitlen N \<le> bitlen N - 24 + 24" by simp
    then have "(2::nat) ^ bitlen N \<le> 2 ^ (bitlen N - 24 + 24)" by (intro power_increasing) simp_all
    with round24_upper [of N] show ?thesis by (rule le_trans)
  qed
qed

subsection \<open>Conversions, doubling and addition of floats\<close>

lemma f32_of_nat_Finite:
  assumes "i < 2 ^ 100"
  shows "f32_of_nat i = Finite False (round24 (i * 2 ^ 149) 0)"
proof -
  have "i * 2 ^ 149 < 2 ^ 100 * 2 ^ 149" using assms by simp
  then have "i * 2 ^ 149 < 2 ^ 249" by (simp only: power_add [symmetric]) simp
  then have "bitlen (i * 2 ^ 149) \<le> 249" by (rule bitlen_le)
  then have "(2::nat) ^ bitlen (i * 2 ^ 149) \<le> 2 ^ 249" by (intro power_increasing) simp_all
  with round24_upper [of "i * 2 ^ 149"] have "round24 (i * 2 ^ 149) 0 \<le> 2 ^ 249" by (rule le_trans)
  also have "(2::nat) ^ 249 < 2 ^ 277" by (rule power_strict_increasing) simp_all
  finally show ?thesis by (simp only: f32_of_nat_def pack_def if_True)
qed

lemma round24_small:
  assumes "i < 2 ^ 24"
  shows "round24 (i * 2 ^ 149) 0 = i * 2 ^ 149"
proof -
  have "i * 2 ^ 149 < 2 ^ 24 * 2 ^ 149" using assms by simp
  then have "i * 2 ^ 149 < 2 ^ (24 + 149)" by (simp only: power_add)
  then have "bitlen (i * 2 ^ 149) \<le> 24 + 149" by (rule bitlen_le)
  then have "(2::nat) ^ (bitlen (i * 2 ^ 149) - 24) dvd 2 ^ 149" by (intro le_imp_power_dvd) simp
  then have "2 ^ (bitlen (i * 2 ^ 149) - 24) dvd i * 2 ^ 149" by (rule dvd_mult)
  then show ?thesis by (simp add: round24_def round_to_dvd)
qed

lemma f32_of_nat_small: "i < 2 ^ 24 \<Longrightarrow> f32_of_nat i = Finite False (i * 2 ^ 149)"
proof -
  assume small: "i < 2 ^ 24"
  have "(2::nat) ^ 24 < 2 ^ 100" by (rule power_strict_increasing) simp_all
  with small have "i < 2 ^ 100" by (rule less_trans)
  then show ?thesis by (simp only: f32_of_nat_Finite round24_small [OF small])
qed

lemma f32_of_int_2: "f32_of_int 2 = Finite False (2 ^ 150)"
proof -
  have "f32_of_nat 2 = Finite False (2 * 2 ^ 149)" by (rule f32_of_nat_small) simp
  then show ?thesis by (simp add: f32_of_int_def)
qed

lemma round24_fitting:
  assumes "2 ^ (bitlen K - 24) dvd K"
  shows "round24 (K * 2 ^ 150) 149 = K * 2 ^ 150"
proof (cases "K = 0")
  case True
  then show ?thesis by (simp add: round24_def round_to_dvd)
next
  case False
  then have "0 < K" by simp
  then have bl: "bitlen (K * 2 ^ 150) = bitlen K + 150" by (rule bitlen_mult_pow)
  have a: "2 ^ 149 dvd K * 2 ^ 150"
  proof -
    have "(2::nat) ^ 149 dvd 2 ^ 150" by (rule le_imp_power_dvd) simp
    then show ?thesis by (rule dvd_mult)
  qed
  have b: "2 ^ (bitlen K + 150 - 24) dvd K * 2 ^ 150"
  proof (cases "24 \<le> bitlen K")
    case True
    then have "bitlen K + 150 - 24 = (bitlen K - 24) + 150" by simp
    moreover have "2 ^ (bitlen K - 24) * 2 ^ 150 dvd K * 2 ^ 150"
      using assms by (rule mult_dvd_mono) simp
    ultimately show ?thesis by (simp only: power_add)
  next
    case False
    then have "(2::nat) ^ (bitlen K + 150 - 24) dvd 2 ^ 150" by (intro le_imp_power_dvd) simp
    then show ?thesis by (rule dvd_mult)
  qed
  have "2 ^ max (bitlen K + 150 - 24) 149 dvd K * 2 ^ 150"
    using a b by (simp only: max_def split: if_splits) simp
  then show ?thesis by (simp only: round24_def bl round_to_dvd)
qed

lemma fmul_two:
  assumes "i < 2 ^ 99"
  shows "fmul (f32_of_nat i) (f32_of_int 2) = f32_of_nat (2 * i)"
proof -
  define K where "K = round24 (i * 2 ^ 149) 0"
  have "(2::nat) ^ 99 < 2 ^ 100" by (rule power_strict_increasing) simp_all
  with assms have i100: "i < 2 ^ 100" by (rule less_trans)
  have i2: "2 * i < 2 ^ 100" using assms by simp
  have x: "f32_of_nat i = Finite False K"
    using i100 by (simp only: f32_of_nat_Finite K_def)
  have "f32_of_nat (2 * i) = Finite False (round24 (2 * (i * 2 ^ 149)) 0)"
    using i2 by (simp only: f32_of_nat_Finite mult.assoc)
  then have y: "f32_of_nat (2 * i) = Finite False (2 * K)"
    by (simp only: round24_double K_def)
  then have "pack False (round24 (2 * (i * 2 ^ 149)) 0) = Finite False (2 * K)"
    by (simp only: f32_of_nat_def mult.assoc)
  then have small: "pack False (2 * K) = Finite False (2 * K)"
    by (simp only: round24_double K_def)
  have "2 ^ (bitlen K - 24) dvd K" unfolding K_def by (rule round24_fits)
  then have "round24 (K * 2 ^ 150) 149 = K * 2 ^ 150" by (rule round24_fitting)
  moreover have "K * 2 ^ 150 div 2 ^ 149 = 2 * K"
  proof -
    have "K * 2 ^ 150 = (2 * K) * 2 ^ 149" by simp
    then show ?thesis by (simp only: nonzero_mult_div_cancel_right power_not_zero) simp
  qed
  ultimately have "fmul (Finite False K) (Finite False (2 ^ 150)) = pack False (2 * K)"
    by (simp only: fmul.simps) simp
  then show ?thesis by (simp only: x y f32_of_int_2 small)
qed

lemma feq_fadd_same_sign: "feq (fadd (Finite s j) (Finite s k)) (fadd (Finite s j) (Finite s k))"
  by (simp add: pack_def)

lemma fadd_of_nat_exact:
  assumes "3 * i < 2 ^ 24"
  shows "fadd (f32_of_nat i) (f32_of_nat (2 * i)) = f32_of_nat (3 * i)"
proof -
  have "i < 2 ^ 24" "2 * i < 2 ^ 24" using assms by simp_all
  then have x: "f32_of_nat i = Finite False (i * 2 ^ 149)"
    and y: "f32_of_nat (2 * i) = Finite False (2 * i * 2 ^ 149)"
    by (simp_all only: f32_of_nat_small)
  have sum: "i * 2 ^ 149 + 2 * i * 2 ^ 149 = 3 * i * 2 ^ 149" by simp
  have "fadd (f32_of_nat i) (f32_of_nat (2 * i)) = pack False (round24 (i * 2 ^ 149 + 2 * i * 2 ^ 149) 0)"
    by (simp only: x y fadd.simps simp_thms if_True)
  also have "\<dots> = f32_of_nat (3 * i)"
    by (simp only: sum f32_of_nat_def)
  finally show ?thesis .
qed

subsection \<open>The scalar loop\<close>

lemma unat_succ: "i < n \<Longrightarrow> unat (i + 1) = Suc (unat i)" for i n :: size_t
proof -
  assume "i < n"
  then have "unat i < unat n" by (simp add: word_less_nat_alt)
  moreover have "unat n < 2 ^ 64" using unsigned_less [of n] by simp
  ultimately have "unat i + unat (1 :: size_t) < 2 ^ LENGTH(64)" by simp
  then show ?thesis by (simp add: unat_add_lem [THEN iffD1])
qed

lemma unat_plus4: "unat i + 4 \<le> unat n \<Longrightarrow> unat (i + 4) = unat i + 4" for i n :: size_t
proof -
  assume "unat i + 4 \<le> unat n"
  moreover have "unat n < 2 ^ 64" using unsigned_less [of n] by simp
  ultimately have "unat i + unat (4 :: size_t) < 2 ^ LENGTH(64)" by simp
  then show ?thesis by (simp add: unat_add_lem [THEN iffD1])
qed

lemma compute_loop_spec:
  assumes "h r = Some R" "h a = Some A" "h b = Some B" "r \<noteq> a" "r \<noteq> b"
    and "unat n \<le> length R" "unat n \<le> length A" "unat n \<le> length B"
  shows "\<exists>R'. compute_loop h r a b n i = Inr (h(r \<mapsto> R')) \<and> length R' = length R \<and>
    (\<forall>j<length R. R' ! j = (if unat i \<le> j \<and> j < unat n then fadd (A ! j) (B ! j) else R ! j))"
  using assms
proof (induction h r a b n i arbitrary: R rule: compute_loop.induct)
  case (1 h r a b n i)
  show ?case
  proof (cases "i < n")
    case False
    then have "\<forall>j<length R. R ! j =
        (if unat i \<le> j \<and> j < unat n then fadd (A ! j) (B ! j) else R ! j)"
      by (auto simp: word_less_nat_alt)
    moreover have "compute_loop h r a b n i = Inr (h(r \<mapsto> R))"
      using False "1.prems"(1) by (subst compute_loop.simps) (simp add: map_upd_triv)
    ultimately show ?thesis by blast
  next
    case True
    then have lt: "unat i < unat n" by (simp add: word_less_nat_alt)
    let ?v = "fadd (A ! unat i) (B ! unat i)"
    let ?h = "h(r \<mapsto> R[unat i := ?v])"
    have la: "load h a i = Inr (A ! unat i)" and lb: "load h b i = Inr (B ! unat i)"
      using "1.prems" lt by (simp_all add: load_def)
    have st: "store h r i ?v = Inr ?h"
      using "1.prems" lt by (simp add: store_def)
    have "\<exists>R'. compute_loop ?h r a b n (i + 1) = Inr (?h(r \<mapsto> R')) \<and>
        length R' = length (R[unat i := ?v]) \<and>
        (\<forall>j<length (R[unat i := ?v]). R' ! j =
          (if unat (i + 1) \<le> j \<and> j < unat n then fadd (A ! j) (B ! j) else R[unat i := ?v] ! j))"
      using "1.prems" by (intro "1.IH" [OF True la lb st]) simp_all
    then obtain R' where run: "compute_loop ?h r a b n (i + 1) = Inr (h(r \<mapsto> R'))"
      and len: "length R' = length R"
      and nth: "\<forall>j<length R. R' ! j =
          (if Suc (unat i) \<le> j \<and> j < unat n then fadd (A ! j) (B ! j) else R[unat i := ?v] ! j)"
      by (auto simp: unat_succ [OF True])
    have "compute_loop h r a b n i = Inr (h(r \<mapsto> R'))"
      using True la lb st run by (subst compute_loop.simps) simp
    moreover have "\<forall>j<length R. R' ! j =
        (if unat i \<le> j \<and> j < unat n then fadd (A ! j) (B ! j) else R ! j)"
    proof (intro allI impI)
      fix j
      assume j: "j < length R"
      show "R' ! j = (if unat i \<le> j \<and> j < unat n then fadd (A ! j) (B ! j) else R ! j)"
      proof (cases "j = unat i")
        case True
        with nth j lt show ?thesis by simp
      next
        case False
        then have "(Suc (unat i) \<le> j) = (unat i \<le> j)" by auto
        with nth j False show ?thesis by simp
      qed
    qed
    ultimately show ?thesis using len by blast
  qed
qed

subsection \<open>The input generator\<close>

lemma nth_step1:
  assumes "\<forall>j<length R. R' ! j = (if Suc k \<le> j \<and> j < n then f j else R[k := f k] ! j)"
    and "k < n"
  shows "\<forall>j<length R. R' ! j = (if k \<le> j \<and> j < n then f j else R ! j)"
proof (intro allI impI)
  fix j
  assume j: "j < length R"
  show "R' ! j = (if k \<le> j \<and> j < n then f j else R ! j)"
  proof (cases "j = k")
    case True
    with assms j show ?thesis by simp
  next
    case False
    then have "(Suc k \<le> j) = (k \<le> j)" by auto
    with assms j False show ?thesis by simp
  qed
qed

lemma nth_step4:
  assumes "\<forall>j<length R. R' ! j =
      (if k + 4 \<le> j \<and> j < n then f j
       else R[k := f k, k + 1 := f (k + 1), k + 2 := f (k + 2), k + 3 := f (k + 3)] ! j)"
    and "k + 4 \<le> n"
  shows "\<forall>j<length R. R' ! j = (if k \<le> j \<and> j < n then f j else R ! j)"
proof (intro allI impI)
  fix j
  assume j: "j < length R"
  consider "j < k" | "j = k" | "j = k + 1" | "j = k + 2" | "j = k + 3" | "k + 4 \<le> j"
    by linarith
  then show "R' ! j = (if k \<le> j \<and> j < n then f j else R ! j)"
  proof cases
    case 1
    with assms j show ?thesis by simp
  next
    case 2
    with assms j show ?thesis by simp
  next
    case 3
    with assms j show ?thesis by simp
  next
    case 4
    with assms j show ?thesis by simp
  next
    case 5
    with assms j show ?thesis by simp
  next
    case 6
    with assms j show ?thesis by simp
  qed
qed

lemma fill_loop_spec:
  assumes "h d1 = Some A" "h d2 = Some B" "d1 \<noteq> d2"
    and "unat n \<le> length A" "unat n \<le> length B"
  shows "\<exists>A' B'. fill_loop h d1 d2 n i = Inr (h(d1 \<mapsto> A', d2 \<mapsto> B')) \<and>
    length A' = length A \<and> length B' = length B \<and>
    (\<forall>j<length A. A' ! j = (if unat i \<le> j \<and> j < unat n then f32_of_nat j else A ! j)) \<and>
    (\<forall>j<length B. B' ! j =
       (if unat i \<le> j \<and> j < unat n then fmul (f32_of_nat j) (f32_of_int 2) else B ! j))"
  using assms
proof (induction h d1 d2 n i arbitrary: A B rule: fill_loop.induct)
  case (1 h d1 d2 n i)
  let ?f = "\<lambda>j. f32_of_nat j"
  let ?g = "\<lambda>j. fmul (f32_of_nat j) (f32_of_int 2)"
  show ?case
  proof (cases "i < n")
    case False
    then have "\<forall>j<length A. A ! j = (if unat i \<le> j \<and> j < unat n then ?f j else A ! j)"
      and "\<forall>j<length B. B ! j = (if unat i \<le> j \<and> j < unat n then ?g j else B ! j)"
      by (auto simp: word_less_nat_alt)
    moreover have "h(d1 \<mapsto> A, d2 \<mapsto> B) = h"
      using "1.prems" by (intro ext) simp
    then have "fill_loop h d1 d2 n i = Inr (h(d1 \<mapsto> A, d2 \<mapsto> B))"
      using False by (subst fill_loop.simps) simp
    ultimately show ?thesis by blast
  next
    case True
    then have lt: "unat i < unat n" by (simp add: word_less_nat_alt)
    let ?A = "A[unat i := ?f (unat i)]"
    let ?B = "B[unat i := ?g (unat i)]"
    let ?h1 = "h(d1 \<mapsto> ?A)"
    let ?h2 = "?h1(d2 \<mapsto> ?B)"
    have s1: "store h d1 i (f32_of_size i) = Inr ?h1"
      using "1.prems" lt by (simp add: store_def f32_of_size_def)
    have s2: "store ?h1 d2 i (fmul (f32_of_size i) (f32_of_int 2)) = Inr ?h2"
      using "1.prems" lt by (simp add: store_def f32_of_size_def)
    have "\<exists>A' B'. fill_loop ?h2 d1 d2 n (i + 1) = Inr (?h2(d1 \<mapsto> A', d2 \<mapsto> B')) \<and>
        length A' = length ?A \<and> length B' = length ?B \<and>
        (\<forall>j<length ?A. A' ! j = (if unat (i + 1) \<le> j \<and> j < unat n then ?f j else ?A ! j)) \<and>
        (\<forall>j<length ?B. B' ! j = (if unat (i + 1) \<le> j \<and> j < unat n then ?g j else ?B ! j))"
      using "1.prems" by (intro "1.IH" [OF True s1 s2]) simp_all
    then obtain A' B' where run: "fill_loop ?h2 d1 d2 n (i + 1) = Inr (?h2(d1 \<mapsto> A', d2 \<mapsto> B'))"
      and len: "length A' = length A" "length B' = length B"
      and nthA: "\<forall>j<length A. A' ! j = (if Suc (unat i) \<le> j \<and> j < unat n then ?f j else ?A ! j)"
      and nthB: "\<forall>j<length B. B' ! j = (if Suc (unat i) \<le> j \<and> j < unat n then ?g j else ?B ! j)"
      by (auto simp: unat_succ [OF True])
    have "?h2(d1 \<mapsto> A', d2 \<mapsto> B') = h(d1 \<mapsto> A', d2 \<mapsto> B')"
      by (intro ext) simp
    with run have "fill_loop h d1 d2 n i = Inr (h(d1 \<mapsto> A', d2 \<mapsto> B'))"
      using True s1 s2 by (subst fill_loop.simps) simp
    moreover note nth_step1 [OF nthA lt] nth_step1 [OF nthB lt]
    ultimately show ?thesis using len by blast
  qed
qed

lemma aligned_lane: "16 dvd p \<Longrightarrow> 4 dvd k \<Longrightarrow> (p + sizeof_float * k) mod 16 = 0"
proof -
  assume p: "16 dvd p" and "4 dvd k"
  then obtain q where "k = 4 * q" by (elim dvdE)
  then have "sizeof_float * k = 16 * q" by (simp add: sizeof_float_def)
  then have "16 dvd sizeof_float * k" by simp
  with p have "16 dvd p + sizeof_float * k" by (rule dvd_add)
  then show ?thesis by (simp only: mod_eq_0_iff_dvd)
qed

subsection \<open>The vectorised loop\<close>

lemma next_lane:
  fixes k n :: nat
  assumes "4 dvd k" "4 dvd n" "k < n"
  shows "k + 4 \<le> n"
proof -
  from assms(1,2) obtain p q where "k = 4 * p" "n = 4 * q" by (elim dvdE)
  with assms(3) show ?thesis by simp
qed

lemma sse_loop_spec:
  assumes "h r = Some R" "h a = Some A" "h b = Some B" "r \<noteq> a" "r \<noteq> b"
    and "unat nsse \<le> length R" "unat nsse \<le> length A" "unat nsse \<le> length B"
    and "4 dvd unat nsse" "4 dvd unat i"
    and "16 dvd r" "16 dvd a" "16 dvd b"
  shows "\<exists>R'. sse_loop h r a b nsse i = Some (Inr (h(r \<mapsto> R'))) \<and> length R' = length R \<and>
    (\<forall>j<length R. R' ! j = (if unat i \<le> j \<and> j < unat nsse then fadd (A ! j) (B ! j) else R ! j))"
  using assms
proof (induction "unat nsse - unat i" arbitrary: h R i rule: less_induct)
  case less
  let ?f = "\<lambda>j. fadd (A ! j) (B ! j)"
  let ?k = "unat i"
  show ?case
  proof (cases "i < nsse")
    case False
    then have "\<forall>j<length R. R ! j = (if ?k \<le> j \<and> j < unat nsse then ?f j else R ! j)"
      by (auto simp: word_less_nat_alt)
    moreover have "sse_loop h r a b nsse i = Some (Inr (h(r \<mapsto> R)))"
      using False less.prems(1) by (subst sse_loop.simps) (simp add: map_upd_triv)
    ultimately show ?thesis by blast
  next
    case True
    then have "?k < unat nsse" by (simp add: word_less_nat_alt)
    with less.prems have k4: "?k + 4 \<le> unat nsse" by (intro next_lane)
    then have p4: "unat (i + 4) = ?k + 4" by (rule unat_plus4)
    let ?R = "R[?k := ?f ?k, ?k + 1 := ?f (?k + 1), ?k + 2 := ?f (?k + 2), ?k + 3 := ?f (?k + 3)]"
    let ?h = "h(r \<mapsto> ?R)"
    have la: "mm_load_ps h a i = Inr (A ! ?k, A ! (?k + 1), A ! (?k + 2), A ! (?k + 3))"
      using less.prems k4 by (simp add: mm_load_ps_def aligned_lane)
    have lb: "mm_load_ps h b i = Inr (B ! ?k, B ! (?k + 1), B ! (?k + 2), B ! (?k + 3))"
      using less.prems k4 by (simp add: mm_load_ps_def aligned_lane)
    have st: "mm_store_ps h r i (mm_add_ps (A ! ?k, A ! (?k + 1), A ! (?k + 2), A ! (?k + 3))
        (B ! ?k, B ! (?k + 1), B ! (?k + 2), B ! (?k + 3))) = Inr ?h"
      using less.prems k4 by (simp add: mm_store_ps_def mm_add_ps_def aligned_lane)
    have "\<exists>R'. sse_loop ?h r a b nsse (i + 4) = Some (Inr (?h(r \<mapsto> R'))) \<and> length R' = length ?R \<and>
        (\<forall>j<length ?R. R' ! j = (if unat (i + 4) \<le> j \<and> j < unat nsse then ?f j else ?R ! j))"
      using less.prems k4 by (intro less.hyps) (simp_all add: p4)
    then obtain R' where run: "sse_loop ?h r a b nsse (i + 4) = Some (Inr (h(r \<mapsto> R')))"
      and len: "length R' = length R"
      and nth: "\<forall>j<length R. R' ! j = (if ?k + 4 \<le> j \<and> j < unat nsse then ?f j else ?R ! j)"
      by (auto simp: p4)
    have "sse_loop h r a b nsse i = Some (Inr (h(r \<mapsto> R')))"
      using True la lb st run by (subst sse_loop.simps) simp
    moreover note nth_step4 [OF nth k4]
    ultimately show ?thesis using len by blast
  qed
qed

subsection \<open>The prefix of the vectorised kernel\<close>

lemma nb_items_4: "nb_items = 4"
  by (simp add: nb_items_def sizeof_float_def)

lemma unat_nsse_of: "unat (nsse_of n) = 4 * (unat (scast n :: size_t) div 4)"
proof -
  let ?x = "scast n :: size_t"
  have d: "unat (?x div 4) = unat ?x div 4" by (simp add: unat_div)
  have "unat ?x div 4 * 4 \<le> unat ?x" by simp
  moreover have "unat ?x < 2 ^ 64" using unsigned_less [of ?x] by simp
  ultimately have "unat (?x div 4) * unat (4 :: size_t) < 2 ^ LENGTH(64)" by (simp add: d)
  then have "unat (?x div 4 * 4) = unat (?x div 4) * unat (4 :: size_t)"
    by (rule unat_mult_lem [THEN iffD1])
  then show ?thesis by (simp add: nsse_of_def nb_items_4 d)
qed

lemma sint_c_int_range: "- (2 ^ 31) \<le> sint c \<and> sint c < 2 ^ 31" for c :: c_int
proof -
  have "- (2 ^ (LENGTH(32) - 1)) \<le> sint c" by (rule sint_ge)
  moreover have "sint c < 2 ^ (LENGTH(32) - 1)" by (rule sint_lt)
  ultimately show ?thesis by simp
qed

lemma unat_scast_mod: "unat (scast c :: size_t) = nat (sint c mod 2 ^ 64)" for c :: c_int
proof -
  have "unat (scast c :: size_t) = nat (uint (word_of_int (sint c) :: size_t))"
    by (simp only: scast_eq unat_eq_nat_uint)
  also have "uint (word_of_int (sint c) :: size_t) = sint c mod 2 ^ LENGTH(64)"
    by (rule uint_word_of_int)
  finally show ?thesis by simp
qed

lemma sign_extend_mod:
  fixes S :: int
  assumes "- (2 ^ 31) \<le> S" "S < 2 ^ 31"
  shows "S mod 2 ^ 64 = (if 0 \<le> S then S else S + 2 ^ 64)"
proof (cases "0 \<le> S")
  case True
  with assms have "S mod 2 ^ 64 = S" by (intro mod_pos_pos_trivial) simp_all
  with True show ?thesis by simp
next
  case False
  have "(S + 2 ^ 64) mod 2 ^ 64 = S mod 2 ^ 64" by simp
  moreover have "(S + 2 ^ 64) mod 2 ^ 64 = S + 2 ^ 64"
    using assms False by (intro mod_pos_pos_trivial) simp_all
  ultimately show ?thesis using False by simp
qed

lemma unat_scast:
  "unat (scast c :: size_t) = (if 0 \<le> sint c then nat (sint c) else nat (sint c + 2 ^ 64))"
  for c :: c_int
proof -
  have "sint c mod 2 ^ 64 = (if 0 \<le> sint c then sint c else sint c + 2 ^ 64)"
    using sint_c_int_range [of c] by (intro sign_extend_mod) simp_all
  then show ?thesis by (cases "0 \<le> sint c") (simp_all only: unat_scast_mod if_True if_False)
qed

lemma sint_narrow: "sint (ucast n :: c_int) = (uint n + 2 ^ 31) mod 2 ^ 32 - 2 ^ 31" for n :: size_t
  by (simp add: signed_ucast_eq signed_take_bit_eq_take_bit_shift take_bit_eq_mod)

lemma sint_narrow_small: "unat n < 2 ^ 31 \<Longrightarrow> sint (ucast n :: c_int) = uint n" for n :: size_t
proof -
  assume "unat n < 2 ^ 31"
  then have "uint n < 2 ^ 31"
    by (metis of_nat_less_numeral_power_cancel_iff of_nat_unat)
  then have "(uint n + 2 ^ 31) mod 2 ^ 32 = uint n + 2 ^ 31"
    by (intro mod_pos_pos_trivial) simp_all
  then show ?thesis by (simp only: sint_narrow add_diff_cancel_right')
qed

lemma narrowed_congruent: "unat (scast (ucast n :: c_int) :: size_t) mod 4 = unat n mod 4" for n :: size_t
proof -
  let ?S = "sint (ucast n :: c_int)"
  have "?S mod 2 ^ 64 mod 4 = ?S mod 4"
    by (rule mod_mod_cancel) simp
  also have "?S mod 4 = ((uint n + 2 ^ 31) mod 2 ^ 32 mod 4 - 2 ^ 31 mod 4) mod 4"
    by (simp only: sint_narrow mod_diff_eq)
  also have "(uint n + 2 ^ 31) mod 2 ^ 32 mod 4 = (uint n + 2 ^ 31) mod 4"
    by (rule mod_mod_cancel) simp
  also have "((uint n + 2 ^ 31) mod 4 - 2 ^ 31 mod 4) mod 4 = uint n mod 4"
    by (simp only: mod_diff_eq) simp
  finally have "?S mod 2 ^ 64 mod 4 = uint n mod 4" .
  then have "nat (?S mod 2 ^ 64 mod 4) = nat (uint n mod 4)" by simp
  moreover have "nat (?S mod 2 ^ 64 mod 4) = nat (?S mod 2 ^ 64) mod nat 4"
    by (rule nat_mod_distrib) simp_all
  moreover have "nat (uint n mod 4) = nat (uint n) mod nat 4"
    by (rule nat_mod_distrib) simp_all
  ultimately have "nat (?S mod 2 ^ 64) mod nat 4 = nat (uint n) mod nat 4" by simp
  moreover have "nat (uint n) = unat n" by simp
  ultimately show ?thesis by (simp only: unat_scast_mod) simp
qed

subsection \<open>The kernels and the generator on valid buffers\<close>

lemma take8: "8 \<le> length xs \<Longrightarrow> take 8 xs = [xs ! 0, xs ! 1, xs ! 2, xs ! 3, xs ! 4, xs ! 5, xs ! 6, xs ! 7]"
proof -
  assume "8 \<le> length xs"
  then have "xs \<noteq> []" by auto
  moreover from \<open>8 \<le> length xs\<close> have "1 < length xs" "2 < length xs" "3 < length xs"
    "4 < length xs" "5 < length xs" "6 < length xs" "7 < length xs"
    by simp_all
  ultimately show ?thesis
    by (simp add: take_Suc_conv_app_nth eval_nat_numeral)
qed

lemma size_t_small: "unat (n :: size_t) < 2 ^ 99"
proof -
  have "unat n < 2 ^ 64" using unsigned_less [of n] by simp
  also have "(2::nat) ^ 64 < 2 ^ 99" by (rule power_strict_increasing) simp_all
  finally show ?thesis .
qed

lemma generated_sum:
  assumes "i < 2 ^ 99"
  shows "fadd (f32_of_nat i) (fmul (f32_of_nat i) (f32_of_int 2)) = fadd (f32_of_nat i) (f32_of_nat (2 * i))"
    and "feq (fadd (f32_of_nat i) (f32_of_nat (2 * i))) (fadd (f32_of_nat i) (f32_of_nat (2 * i)))"
proof -
  show "fadd (f32_of_nat i) (fmul (f32_of_nat i) (f32_of_int 2)) = fadd (f32_of_nat i) (f32_of_nat (2 * i))"
    using assms by (simp only: fmul_two)
  have "(2::nat) ^ 99 < 2 ^ 100" by (rule power_strict_increasing) simp_all
  with assms have "i < 2 ^ 100" by (rule less_trans)
  moreover have "2 * i < 2 ^ 100" using assms by simp
  ultimately show "feq (fadd (f32_of_nat i) (f32_of_nat (2 * i))) (fadd (f32_of_nat i) (f32_of_nat (2 * i)))"
    by (simp only: f32_of_nat_Finite feq_fadd_same_sign)
qed

lemma compute_spec:
  assumes "h r = Some R" "h a = Some A" "h b = Some B" "r \<noteq> a" "r \<noteq> b"
    and "unat n \<le> length R" "unat n \<le> length A" "unat n \<le> length B"
  shows "\<exists>R'. compute h r a b n = Inr (h(r \<mapsto> R')) \<and> length R' = length R \<and>
    (\<forall>j<length R. R' ! j = (if j < unat n then fadd (A ! j) (B ! j) else R ! j))"
  using compute_loop_spec [OF assms, of 0] by (simp add: compute_def)

lemma compute_sse_spec_general:
  assumes "h r = Some R" "h a = Some A" "h b = Some B" "r \<noteq> a" "r \<noteq> b"
    and "unat (nsse_of n) \<le> length R" "unat (nsse_of n) \<le> length A" "unat (nsse_of n) \<le> length B"
    and "16 dvd r" "16 dvd a" "16 dvd b"
  shows "\<exists>R'. compute_sse h r a b n = Some (Inr (h(r \<mapsto> R'))) \<and> length R' = length R \<and>
    (\<forall>j<length R. R' ! j = (if j < unat (nsse_of n) then fadd (A ! j) (B ! j) else R ! j))"
proof -
  have "4 dvd unat (nsse_of n)" by (simp add: unat_nsse_of)
  moreover have "4 dvd unat (0 :: size_t)" by simp
  ultimately show ?thesis
    using sse_loop_spec [OF assms(1-8) _ _ assms(9-11), of 0] by (simp add: compute_sse_def)
qed

lemma unat_nsse_of_nonneg: "0 \<le> sint n \<Longrightarrow> unat (nsse_of n) = 4 * (nat (sint n) div 4)"
  by (simp add: unat_nsse_of unat_scast)

lemma compute_sse_spec:
  assumes "0 \<le> sint n"
    and "h r = Some R" "h a = Some A" "h b = Some B" "r \<noteq> a" "r \<noteq> b"
    and "nat (sint n) \<le> length R" "nat (sint n) \<le> length A" "nat (sint n) \<le> length B"
    and "16 dvd r" "16 dvd a" "16 dvd b"
  shows "\<exists>R'. compute_sse h r a b n = Some (Inr (h(r \<mapsto> R'))) \<and> length R' = length R \<and>
    (\<forall>j<length R. R' ! j = (if j < 4 * (nat (sint n) div 4) then fadd (A ! j) (B ! j) else R ! j))"
proof -
  have m: "unat (nsse_of n) = 4 * (nat (sint n) div 4)"
    using assms(1) by (rule unat_nsse_of_nonneg)
  have "4 * (nat (sint n) div 4) \<le> nat (sint n)" by simp
  with assms(7-9) have "unat (nsse_of n) \<le> length R" "unat (nsse_of n) \<le> length A"
    "unat (nsse_of n) \<le> length B"
    by (simp_all only: m)
  from compute_sse_spec_general [OF assms(2-6) this assms(10-12)] show ?thesis
    by (simp only: m)
qed

lemma fill_spec:
  assumes "h a = Some A" "h b = Some B" "a \<noteq> b"
    and "unat n \<le> length A" "unat n \<le> length B"
  shows "\<exists>A' B'. fill h a b n = Inr (h(a \<mapsto> A', b \<mapsto> B')) \<and>
    length A' = length A \<and> length B' = length B \<and>
    (\<forall>j<unat n. A' ! j = f32_of_nat j \<and> B' ! j = f32_of_nat (2 * j))"
proof -
  from fill_loop_spec [OF assms, of 0]
  obtain A' B' where f: "fill h a b n = Inr (h(a \<mapsto> A', b \<mapsto> B'))"
    and len: "length A' = length A" "length B' = length B"
    and nthA: "\<forall>j<length A. A' ! j = (if j < unat n then f32_of_nat j else A ! j)"
    and nthB: "\<forall>j<length B. B' ! j =
       (if j < unat n then fmul (f32_of_nat j) (f32_of_int 2) else B ! j)"
    by (auto simp: fill_def)
  have "\<forall>j<unat n. A' ! j = f32_of_nat j \<and> B' ! j = f32_of_nat (2 * j)"
  proof (intro allI impI)
    fix j
    assume j: "j < unat n"
    then have "j < 2 ^ 99" using size_t_small [of n] by (rule less_trans)
    then have "fmul (f32_of_nat j) (f32_of_int 2) = f32_of_nat (2 * j)" by (rule fmul_two)
    with j nthA nthB assms(4,5) show "A' ! j = f32_of_nat j \<and> B' ! j = f32_of_nat (2 * j)"
      by simp
  qed
  with f len show ?thesis by blast
qed

lemma feq_generated:
  fixes n :: size_t
  assumes "i < unat n"
  shows "feq (fadd (f32_of_nat i) (f32_of_nat (2 * i))) (fadd (f32_of_nat i) (f32_of_nat (2 * i)))"
proof -
  from assms have "i < 2 ^ 99" using size_t_small [of n] by (rule less_trans)
  then show ?thesis by (rule generated_sum)
qed

subsection \<open>The narrowed element count\<close>

lemma narrowed_small: "unat n < 2 ^ 31 \<Longrightarrow> unat (scast (ucast n :: c_int) :: size_t) = unat n"
  for n :: size_t
proof -
  assume "unat n < 2 ^ 31"
  then have "sint (ucast n :: c_int) = uint n" by (rule sint_narrow_small)
  then show ?thesis by (simp add: unat_scast)
qed

lemma narrowed_range:
  fixes c :: c_int
  shows "unat (scast c :: size_t) < 2 ^ 31 \<or> 2 ^ 64 - 2 ^ 31 \<le> unat (scast c :: size_t)"
  using sint_c_int_range [of c] by (simp add: unat_scast) linarith

lemma narrowed_negative:
  fixes c :: c_int
  shows "sint c < 0 \<Longrightarrow> 2 ^ 64 - 2 ^ 31 \<le> unat (scast c :: size_t)"
  using sint_c_int_range [of c] by (simp add: unat_scast)

lemma same_prefix_same_count:
  fixes x y :: nat
  assumes "x mod 4 = y mod 4" and "4 * (x div 4) = 4 * (y div 4)"
  shows "x = y"
proof -
  have "x = 4 * (x div 4) + x mod 4" by simp
  also have "\<dots> = 4 * (y div 4) + y mod 4" by (simp only: assms)
  also have "\<dots> = y" by simp
  finally show ?thesis .
qed

subsection \<open>The driver\<close>

lemma fill_zero: "fill h a b 0 = Inr h"
  by (simp add: fill_def fill_loop.simps)

lemma compute_zero: "compute h r a b 0 = Inr h"
  by (simp add: compute_def compute_loop.simps)

lemma nsse_of_zero: "nsse_of 0 = 0"
  by (simp add: nsse_of_def)

lemma compute_sse_zero: "compute_sse h r a b 0 = Some (Inr h)"
  by (simp add: compute_sse_def nsse_of_zero sse_loop.simps)

lemma store_dom: "store h p i v = Inr h' \<Longrightarrow> dom h' = dom h"
  by (auto simp: store_def split: option.splits if_splits)

lemma mm_store_ps_dom: "mm_store_ps h p i v = Inr h' \<Longrightarrow> dom h' = dom h"
  by (auto simp: mm_store_ps_def split: option.splits if_splits prod.splits)

lemma compute_loop_dom: "compute_loop h r a b n i = Inr h' \<Longrightarrow> dom h' = dom h"
proof (induction h r a b n i rule: compute_loop.induct)
  case (1 h r a b n i)
  show ?case
  proof (cases "i < n")
    case False
    with "1.prems" show ?thesis by (simp add: compute_loop.simps)
  next
    case True
    with "1.prems" obtain x y h1 where l: "load h a i = Inr x" "load h b i = Inr y"
      and s: "store h r i (fadd x y) = Inr h1"
      and run: "compute_loop h1 r a b n (i + 1) = Inr h'"
      by (subst (asm) compute_loop.simps) (auto split: sum.splits)
    from "1.IH" [OF True l s run] store_dom [OF s] show ?thesis by simp
  qed
qed

lemma fill_loop_dom: "fill_loop h d1 d2 n i = Inr h' \<Longrightarrow> dom h' = dom h"
proof (induction h d1 d2 n i rule: fill_loop.induct)
  case (1 h d1 d2 n i)
  show ?case
  proof (cases "i < n")
    case False
    with "1.prems" show ?thesis by (simp add: fill_loop.simps)
  next
    case True
    with "1.prems" obtain h1 h2 where s1: "store h d1 i (f32_of_size i) = Inr h1"
      and s2: "store h1 d2 i (fmul (f32_of_size i) (f32_of_int 2)) = Inr h2"
      and run: "fill_loop h2 d1 d2 n (i + 1) = Inr h'"
      by (subst (asm) fill_loop.simps) (auto split: sum.splits)
    from "1.IH" [OF True s1 s2 run] store_dom [OF s1] store_dom [OF s2] show ?thesis by simp
  qed
qed

lemma sse_loop_returns:
  assumes "4 dvd unat nsse" "4 dvd unat i"
  shows "\<exists>y. sse_loop h r a b nsse i = Some y \<and> (\<forall>h'. y = Inr h' \<longrightarrow> dom h' = dom h)"
  using assms
proof (induction "unat nsse - unat i" arbitrary: h i rule: less_induct)
  case less
  show ?case
  proof (cases "i < nsse")
    case False
    then show ?thesis by (subst sse_loop.simps) simp
  next
    case True
    then have "unat i < unat nsse" by (simp add: word_less_nat_alt)
    with less.prems have k4: "unat i + 4 \<le> unat nsse" by (intro next_lane)
    then have p4: "unat (i + 4) = unat i + 4" by (rule unat_plus4)
    show ?thesis
    proof (cases "mm_load_ps h a i")
      case (Inl e)
      with True show ?thesis by (subst sse_loop.simps) simp
    next
      case la: (Inr va)
      show ?thesis
      proof (cases "mm_load_ps h b i")
        case (Inl e)
        with True la show ?thesis by (subst sse_loop.simps) simp
      next
        case lb: (Inr vb)
        show ?thesis
        proof (cases "mm_store_ps h r i (mm_add_ps va vb)")
          case (Inl e)
          with True la lb show ?thesis by (subst sse_loop.simps) simp
        next
          case st: (Inr h1)
          have "\<exists>y. sse_loop h1 r a b nsse (i + 4) = Some y \<and> (\<forall>h'. y = Inr h' \<longrightarrow> dom h' = dom h1)"
            using less.prems k4 by (intro less.hyps) (simp_all add: p4)
          moreover have "sse_loop h r a b nsse i = sse_loop h1 r a b nsse (i + 4)"
            using True la lb st by (subst sse_loop.simps) simp
          ultimately show ?thesis using mm_store_ps_dom [OF st] by simp
        qed
      qed
    qed
  qed
qed

lemma compute_sse_returns:
  "\<exists>y. compute_sse h r a b n = Some y \<and> (\<forall>h'. y = Inr h' \<longrightarrow> dom h' = dom h)"
proof -
  have "4 dvd unat (nsse_of n)" by (simp add: unat_nsse_of)
  moreover have "4 dvd unat (0 :: size_t)" by simp
  ultimately show ?thesis unfolding compute_sse_def by (rule sse_loop_returns)
qed

lemma posix_memalign_cases:
  assumes "posix_memalign h p 32 sz x = (h', p', s)"
  shows "(x = ENOMEM \<and> h' = h \<and> p' = p) \<or>
    (\<exists>k g. x = Granted k g \<and> h' = h(32 * k \<mapsto> map g [0..<unat sz div sizeof_float]) \<and> p' = 32 * k)"
  using assms by (cases x) (auto simp: posix_memalign_def)

lemma posix_memalign_dom:
  assumes "posix_memalign h p 32 sz x = (h', p', s)"
  shows "dom h' = dom h \<union> granted_at x"
  using assms by (cases x) (auto simp: posix_memalign_def granted_at_def)

lemma main_simple_run:
  fixes v :: int
  defines "n \<equiv> word_of_int v :: size_t"
  assumes "args \<noteq> []" "atoll (args ! 0) = Some v"
    and "posix_memalign Map.empty (junk1 env) 32 (of_nat sizeof_float * n) (alloc1 env) = (h1, data1, s1)"
    and "posix_memalign h1 (junk2 env) 32 (of_nat sizeof_float * n) (alloc2 env) = (h2, data2, s2)"
    and "posix_memalign h2 (junk3 env) 32 (of_nat sizeof_float * n) (alloc3 env) = (h3, result, s3)"
  shows "main_simple env prog args =
    (case fill h3 data1 data2 n of
       Inl e \<Rightarrow> ([Using_table (unat n)], Faulted Fill e)
     | Inr h4 \<Rightarrow>
         (case compute h4 result data1 data2 n of
            Inl e \<Rightarrow> ([Using_table (unat n)], Faulted Kernel e)
          | Inr h5 \<Rightarrow>
              (case print_values h5 result of
                 Inl e \<Rightarrow> ([Using_table (unat n),
                     Exec_time ''Execution time '' (start_tv env) (end_tv env)], Faulted Report e)
               | Inr vals \<Rightarrow> ([Using_table (unat n),
                     Exec_time ''Execution time '' (start_tv env) (end_tv env), vals], Exited 0 h5))))"
  using assms(2-) unfolding n_def
  by (cases args) (simp_all add: main_simple_def Let_def split: sum.splits)

lemma main_sse_run:
  fixes v :: int
  defines "n \<equiv> word_of_int v :: size_t"
  assumes "args \<noteq> []" "atoll (args ! 0) = Some v"
    and "posix_memalign Map.empty (junk1 env) 32 (of_nat sizeof_float * n) (alloc1 env) = (h1, data1, s1)"
    and "posix_memalign h1 (junk2 env) 32 (of_nat sizeof_float * n) (alloc2 env) = (h2, data2, s2)"
    and "posix_memalign h2 (junk3 env) 32 (of_nat sizeof_float * n) (alloc3 env) = (h3, result, s3)"
  shows "main_sse env prog args =
    (case fill h3 data1 data2 n of
       Inl e \<Rightarrow> Some ([Using_table (unat n)], Faulted Fill e)
     | Inr h4 \<Rightarrow>
         (case compute_sse h4 result data1 data2 (ucast n) of
            None \<Rightarrow> None
          | Some (Inl e) \<Rightarrow> Some ([Using_table (unat n)], Faulted Kernel e)
          | Some (Inr h5) \<Rightarrow>
              (case print_values h5 result of
                 Inl e \<Rightarrow> Some ([Using_table (unat n),
                     Exec_time ''Execution time using manual sse'' (start_tv env) (end_tv env)],
                     Faulted Report e)
               | Inr vals \<Rightarrow> Some ([Using_table (unat n),
                     Exec_time ''Execution time using manual sse'' (start_tv env) (end_tv env), vals],
                     Exited 0 h5))))"
  using assms(2-) unfolding n_def
  by (cases args) (simp_all add: main_sse_def Let_def split: sum.splits option.splits)

lemma main_usage:
  "main_simple env prog [] = ([Usage prog], Exited 1 Map.empty)"
  "main_sse env prog [] = Some ([Usage prog], Exited 1 Map.empty)"
  by (simp_all add: main_simple_def main_sse_def)

lemma unat_table_size:
  fixes n :: size_t
  assumes "unat n < 2 ^ 62"
  shows "unat (of_nat sizeof_float * n) div sizeof_float = unat n"
proof -
  have "unat (4 :: size_t) * unat n < 2 ^ LENGTH(64)" using assms by simp
  then have "unat (4 * n) = unat (4 :: size_t) * unat n" by (rule unat_mult_lem [THEN iffD1])
  then show ?thesis by (simp add: sizeof_float_def)
qed

lemma print_values_ok:
  assumes "h result = Some R" "4 \<le> length R"
  shows "print_values h result = Inr (Values (R ! 0) (R ! 1) (R ! 2) (R ! 3))"
proof -
  from assms(2) have "R \<noteq> []" by auto
  moreover from assms(2) have "1 < length R" "2 < length R" "3 < length R" by simp_all
  ultimately have "0 < length R" "1 < length R" "2 < length R" "3 < length R" by simp_all
  with assms(1) show ?thesis by (simp add: print_values_def load_def)
qed

lemma print_values_empty:
  assumes "\<forall>xs. h result = Some xs \<longrightarrow> xs = []"
  shows "print_values h result = Inl Invalid_access"
  using assms by (cases "h result") (simp_all add: print_values_def load_def)

lemma fill_invalid:
  assumes "h d1 = None" "n \<noteq> 0"
  shows "fill h d1 d2 n = Inl Invalid_access"
proof -
  from assms(2) have "0 < n" by (simp add: word_neq_0_conv)
  then show ?thesis
    using assms(1) unfolding fill_def by (subst fill_loop.simps) (simp add: store_def)
qed

lemma main_simple_granted:
  fixes v :: int
  defines "n \<equiv> word_of_int v :: size_t"
  assumes "alloc1 env = Granted k1 g1" "alloc2 env = Granted k2 g2" "alloc3 env = Granted k3 g3"
    and "k1 \<noteq> k2" "k1 \<noteq> k3" "k2 \<noteq> k3"
    and "args \<noteq> []" "atoll (args ! 0) = Some v"
    and "4 \<le> unat n" "unat n < 2 ^ 62"
  shows "\<exists>h R. main_simple env prog args =
      ([Using_table (unat n), Exec_time ''Execution time '' (start_tv env) (end_tv env),
        Values (R ! 0) (R ! 1) (R ! 2) (R ! 3)], Exited 0 h) \<and>
      dom h = {32 * k1, 32 * k2, 32 * k3} \<and> h (32 * k3) = Some R \<and> length R = unat n \<and>
      (\<forall>i<unat n. R ! i = fadd (f32_of_nat i) (f32_of_nat (2 * i)))"
proof -
  let ?sz = "of_nat sizeof_float * n"
  let ?N = "unat ?sz div sizeof_float"
  let ?A = "map g1 [0..<?N]" and ?B = "map g2 [0..<?N]" and ?R = "map g3 [0..<?N]"
  let ?h1 = "[32 * k1 \<mapsto> ?A]"
  let ?h2 = "?h1(32 * k2 \<mapsto> ?B)"
  let ?h3 = "?h2(32 * k3 \<mapsto> ?R)"
  have N: "?N = unat n" using assms(11) by (rule unat_table_size)
  have p1: "posix_memalign Map.empty (junk1 env) 32 ?sz (alloc1 env) = (?h1, 32 * k1, 0)"
    and p2: "posix_memalign ?h1 (junk2 env) 32 ?sz (alloc2 env) = (?h2, 32 * k2, 0)"
    and p3: "posix_memalign ?h2 (junk3 env) 32 ?sz (alloc3 env) = (?h3, 32 * k3, 0)"
    using assms(2-4) by (simp_all add: posix_memalign_def)
  note run = main_simple_run [OF assms(8,9) p1 [unfolded n_def] p2 [unfolded n_def] p3 [unfolded n_def],
      folded n_def, of prog]
  have "?h3 (32 * k1) = Some ?A" "?h3 (32 * k2) = Some ?B" "32 * k1 \<noteq> 32 * k2"
    "unat n \<le> length ?A" "unat n \<le> length ?B"
    using assms(5-7) by (simp_all add: N)
  from fill_spec [OF this]
  obtain A' B' where f: "fill ?h3 (32 * k1) (32 * k2) n = Inr (?h3(32 * k1 \<mapsto> A', 32 * k2 \<mapsto> B'))"
    and len: "length A' = length ?A" "length B' = length ?B"
    and gen: "\<forall>j<unat n. A' ! j = f32_of_nat j \<and> B' ! j = f32_of_nat (2 * j)"
    by blast
  let ?h4 = "?h3(32 * k1 \<mapsto> A', 32 * k2 \<mapsto> B')"
  have "?h4 (32 * k3) = Some ?R" "?h4 (32 * k1) = Some A'" "?h4 (32 * k2) = Some B'"
    "32 * k3 \<noteq> 32 * k1" "32 * k3 \<noteq> 32 * k2"
    "unat n \<le> length ?R" "unat n \<le> length A'" "unat n \<le> length B'"
    using assms(5-7) len by (simp_all add: N)
  from compute_spec [OF this]
  obtain R' where c: "compute ?h4 (32 * k3) (32 * k1) (32 * k2) n = Inr (?h4(32 * k3 \<mapsto> R'))"
    and lenR: "length R' = length ?R"
    and nthR: "\<forall>j<length ?R. R' ! j = (if j < unat n then fadd (A' ! j) (B' ! j) else ?R ! j)"
    by blast
  let ?h5 = "?h4(32 * k3 \<mapsto> R')"
  have lenR': "length R' = unat n" using lenR by (simp add: N)
  have vals: "\<forall>i<unat n. R' ! i = fadd (f32_of_nat i) (f32_of_nat (2 * i))"
    using nthR gen by (simp add: N)
  have "?h5 (32 * k3) = Some R'" "4 \<le> length R'" using assms(10) lenR' by simp_all
  then have pv: "print_values ?h5 (32 * k3) = Inr (Values (R' ! 0) (R' ! 1) (R' ! 2) (R' ! 3))"
    by (rule print_values_ok)
  have "main_simple env prog args =
      ([Using_table (unat n), Exec_time ''Execution time '' (start_tv env) (end_tv env),
        Values (R' ! 0) (R' ! 1) (R' ! 2) (R' ! 3)], Exited 0 ?h5)"
    by (simp only: run f c pv sum.case)
  moreover have "dom ?h5 = {32 * k1, 32 * k2, 32 * k3}" by auto
  moreover have "?h5 (32 * k3) = Some R'" by simp
  ultimately show ?thesis using lenR' vals by blast
qed

lemma main_sse_granted:
  fixes v :: int
  defines "n \<equiv> word_of_int v :: size_t"
  assumes "alloc1 env = Granted k1 g1" "alloc2 env = Granted k2 g2" "alloc3 env = Granted k3 g3"
    and "k1 \<noteq> k2" "k1 \<noteq> k3" "k2 \<noteq> k3"
    and "args \<noteq> []" "atoll (args ! 0) = Some v"
    and "4 \<le> unat n" "unat n < 2 ^ 31"
  shows "\<exists>h R. main_sse env prog args =
      Some ([Using_table (unat n),
        Exec_time ''Execution time using manual sse'' (start_tv env) (end_tv env),
        Values (R ! 0) (R ! 1) (R ! 2) (R ! 3)], Exited 0 h) \<and>
      dom h = {32 * k1, 32 * k2, 32 * k3} \<and> h (32 * k3) = Some R \<and> length R = unat n \<and>
      (\<forall>i<4 * (unat n div 4). R ! i = fadd (f32_of_nat i) (f32_of_nat (2 * i)))"
proof -
  let ?sz = "of_nat sizeof_float * n"
  let ?N = "unat ?sz div sizeof_float"
  let ?A = "map g1 [0..<?N]" and ?B = "map g2 [0..<?N]" and ?R = "map g3 [0..<?N]"
  let ?h1 = "[32 * k1 \<mapsto> ?A]"
  let ?h2 = "?h1(32 * k2 \<mapsto> ?B)"
  let ?h3 = "?h2(32 * k3 \<mapsto> ?R)"
  let ?c = "ucast n :: c_int"
  have "(2::nat) ^ 31 < 2 ^ 62" by (rule power_strict_increasing) simp_all
  with assms(11) have "unat n < 2 ^ 62" by (rule less_trans)
  then have N: "?N = unat n" by (rule unat_table_size)
  have sc: "sint ?c = uint n" using assms(11) by (rule sint_narrow_small)
  then have nonneg: "0 \<le> sint ?c" by simp
  have cn: "nat (sint ?c) = unat n" by (simp add: sc)
  have p1: "posix_memalign Map.empty (junk1 env) 32 ?sz (alloc1 env) = (?h1, 32 * k1, 0)"
    and p2: "posix_memalign ?h1 (junk2 env) 32 ?sz (alloc2 env) = (?h2, 32 * k2, 0)"
    and p3: "posix_memalign ?h2 (junk3 env) 32 ?sz (alloc3 env) = (?h3, 32 * k3, 0)"
    using assms(2-4) by (simp_all add: posix_memalign_def)
  note run = main_sse_run [OF assms(8,9) p1 [unfolded n_def] p2 [unfolded n_def] p3 [unfolded n_def],
      folded n_def, of prog]
  have "?h3 (32 * k1) = Some ?A" "?h3 (32 * k2) = Some ?B" "32 * k1 \<noteq> 32 * k2"
    "unat n \<le> length ?A" "unat n \<le> length ?B"
    using assms(5-7) by (simp_all add: N)
  from fill_spec [OF this]
  obtain A' B' where f: "fill ?h3 (32 * k1) (32 * k2) n = Inr (?h3(32 * k1 \<mapsto> A', 32 * k2 \<mapsto> B'))"
    and len: "length A' = length ?A" "length B' = length ?B"
    and gen: "\<forall>j<unat n. A' ! j = f32_of_nat j \<and> B' ! j = f32_of_nat (2 * j)"
    by blast
  let ?h4 = "?h3(32 * k1 \<mapsto> A', 32 * k2 \<mapsto> B')"
  have "?h4 (32 * k3) = Some ?R" "?h4 (32 * k1) = Some A'" "?h4 (32 * k2) = Some B'"
    "32 * k3 \<noteq> 32 * k1" "32 * k3 \<noteq> 32 * k2"
    "nat (sint ?c) \<le> length ?R" "nat (sint ?c) \<le> length A'" "nat (sint ?c) \<le> length B'"
    "16 dvd 32 * k3" "16 dvd 32 * k1" "16 dvd 32 * k2"
    using assms(5-7) len by (simp_all add: N cn)
  from compute_sse_spec [OF nonneg this]
  obtain R' where c: "compute_sse ?h4 (32 * k3) (32 * k1) (32 * k2) ?c = Some (Inr (?h4(32 * k3 \<mapsto> R')))"
    and lenR: "length R' = length ?R"
    and nthR: "\<forall>j<length ?R. R' ! j =
        (if j < 4 * (unat n div 4) then fadd (A' ! j) (B' ! j) else ?R ! j)"
    by (auto simp only: cn)
  let ?h5 = "?h4(32 * k3 \<mapsto> R')"
  have lenR': "length R' = unat n" using lenR by (simp add: N)
  have "4 * (unat n div 4) \<le> unat n" by simp
  then have below: "i < unat n" if "i < 4 * (unat n div 4)" for i
    using that by simp
  have vals: "\<forall>i<4 * (unat n div 4). R' ! i = fadd (f32_of_nat i) (f32_of_nat (2 * i))"
    using nthR gen below by (simp add: N)
  have "?h5 (32 * k3) = Some R'" "4 \<le> length R'" using assms(10) lenR' by simp_all
  then have pv: "print_values ?h5 (32 * k3) = Inr (Values (R' ! 0) (R' ! 1) (R' ! 2) (R' ! 3))"
    by (rule print_values_ok)
  have "main_sse env prog args =
      Some ([Using_table (unat n),
        Exec_time ''Execution time using manual sse'' (start_tv env) (end_tv env),
        Values (R' ! 0) (R' ! 1) (R' ! 2) (R' ! 3)], Exited 0 ?h5)"
    by (simp only: run f c pv sum.case option.case)
  moreover have "dom ?h5 = {32 * k1, 32 * k2, 32 * k3}" by auto
  moreover have "?h5 (32 * k3) = Some R'" by simp
  ultimately show ?thesis using lenR' vals by blast
qed

text \<open>
  The same run when the kernel's prefix is stated through the count it receives, the
  narrowed \<open>ucast n\<close>: the result block holds the sums below the prefix and what the
  allocation left there from the prefix on.
\<close>

lemma main_sse_granted_general:
  fixes n :: size_t
  assumes "alloc1 env = Granted k1 g1" "alloc2 env = Granted k2 g2" "alloc3 env = Granted k3 g3"
    and "k1 \<noteq> k2" "k1 \<noteq> k3" "k2 \<noteq> k3"
    and "args \<noteq> []" "atoll (args ! 0) = Some (uint n)"
    and "4 \<le> unat n" "unat n < 2 ^ 62" "unat (nsse_of (ucast n)) \<le> unat n"
  shows "\<exists>h R. main_sse env prog args =
      Some ([Using_table (unat n),
        Exec_time ''Execution time using manual sse'' (start_tv env) (end_tv env),
        Values (R ! 0) (R ! 1) (R ! 2) (R ! 3)], Exited 0 h) \<and>
      dom h = {32 * k1, 32 * k2, 32 * k3} \<and> h (32 * k3) = Some R \<and> length R = unat n \<and>
      (\<forall>i<unat n. R ! i =
         (if i < unat (nsse_of (ucast n)) then fadd (f32_of_nat i) (f32_of_nat (2 * i)) else g3 i))"
proof -
  let ?sz = "of_nat sizeof_float * n"
  let ?N = "unat ?sz div sizeof_float"
  let ?A = "map g1 [0..<?N]" and ?B = "map g2 [0..<?N]" and ?R = "map g3 [0..<?N]"
  let ?h1 = "[32 * k1 \<mapsto> ?A]"
  let ?h2 = "?h1(32 * k2 \<mapsto> ?B)"
  let ?h3 = "?h2(32 * k3 \<mapsto> ?R)"
  let ?c = "ucast n :: c_int"
  let ?m = "unat (nsse_of ?c)"
  have N: "?N = unat n" using assms(10) by (rule unat_table_size)
  have w: "(word_of_int (uint n) :: size_t) = n" by (rule word_of_int_uint)
  have p1: "posix_memalign Map.empty (junk1 env) 32 ?sz (alloc1 env) = (?h1, 32 * k1, 0)"
    and p2: "posix_memalign ?h1 (junk2 env) 32 ?sz (alloc2 env) = (?h2, 32 * k2, 0)"
    and p3: "posix_memalign ?h2 (junk3 env) 32 ?sz (alloc3 env) = (?h3, 32 * k3, 0)"
    using assms(1-3) by (simp_all add: posix_memalign_def)
  let ?n' = "word_of_int (uint n) :: size_t"
  have p1': "posix_memalign Map.empty (junk1 env) 32 (of_nat sizeof_float * ?n') (alloc1 env) =
      (?h1, 32 * k1, 0)"
    and p2': "posix_memalign ?h1 (junk2 env) 32 (of_nat sizeof_float * ?n') (alloc2 env) =
      (?h2, 32 * k2, 0)"
    and p3': "posix_memalign ?h2 (junk3 env) 32 (of_nat sizeof_float * ?n') (alloc3 env) =
      (?h3, 32 * k3, 0)"
    using p1 p2 p3 by (simp_all only: w)
  note run = main_sse_run [OF assms(7,8) p1' p2' p3', unfolded w, of prog]
  have "?h3 (32 * k1) = Some ?A" "?h3 (32 * k2) = Some ?B" "32 * k1 \<noteq> 32 * k2"
    "unat n \<le> length ?A" "unat n \<le> length ?B"
    using assms(4-6) by (simp_all add: N)
  from fill_spec [OF this]
  obtain A' B' where f: "fill ?h3 (32 * k1) (32 * k2) n = Inr (?h3(32 * k1 \<mapsto> A', 32 * k2 \<mapsto> B'))"
    and len: "length A' = length ?A" "length B' = length ?B"
    and gen: "\<forall>j<unat n. A' ! j = f32_of_nat j \<and> B' ! j = f32_of_nat (2 * j)"
    by blast
  let ?h4 = "?h3(32 * k1 \<mapsto> A', 32 * k2 \<mapsto> B')"
  have "?h4 (32 * k3) = Some ?R" "?h4 (32 * k1) = Some A'" "?h4 (32 * k2) = Some B'"
    "32 * k3 \<noteq> 32 * k1" "32 * k3 \<noteq> 32 * k2"
    "?m \<le> length ?R" "?m \<le> length A'" "?m \<le> length B'"
    "16 dvd 32 * k3" "16 dvd 32 * k1" "16 dvd 32 * k2"
    using assms(4-6,11) len by (simp_all add: N)
  from compute_sse_spec_general [OF this]
  obtain R' where c: "compute_sse ?h4 (32 * k3) (32 * k1) (32 * k2) ?c = Some (Inr (?h4(32 * k3 \<mapsto> R')))"
    and lenR: "length R' = length ?R"
    and nthR: "\<forall>j<length ?R. R' ! j = (if j < ?m then fadd (A' ! j) (B' ! j) else ?R ! j)"
    by blast
  let ?h5 = "?h4(32 * k3 \<mapsto> R')"
  have lenR': "length R' = unat n" using lenR by (simp add: N)
  have vals: "\<forall>i<unat n. R' ! i =
      (if i < ?m then fadd (f32_of_nat i) (f32_of_nat (2 * i)) else g3 i)"
    using nthR gen by (simp add: N)
  have "?h5 (32 * k3) = Some R'" "4 \<le> length R'" using assms(9) lenR' by simp_all
  then have pv: "print_values ?h5 (32 * k3) = Inr (Values (R' ! 0) (R' ! 1) (R' ! 2) (R' ! 3))"
    by (rule print_values_ok)
  have "main_sse env prog args =
      Some ([Using_table (unat n),
        Exec_time ''Execution time using manual sse'' (start_tv env) (end_tv env),
        Values (R' ! 0) (R' ! 1) (R' ! 2) (R' ! 3)], Exited 0 ?h5)"
    by (simp only: run f c pv sum.case option.case)
  moreover have "dom ?h5 = {32 * k1, 32 * k2, 32 * k3}" by auto
  moreover have "?h5 (32 * k3) = Some R'" by simp
  ultimately show ?thesis using lenR' vals by blast
qed

lemma three_posix_memalign:
  obtains h1 d1 s1 h2 d2 s2 h3 d3 s3 where
    "posix_memalign Map.empty (junk1 env) 32 sz (alloc1 env) = (h1, d1, s1)"
    "posix_memalign h1 (junk2 env) 32 sz (alloc2 env) = (h2, d2, s2)"
    "posix_memalign h2 (junk3 env) 32 sz (alloc3 env) = (h3, d3, s3)"
    "dom h3 = granted env"
proof -
  obtain h1 d1 s1 where p1: "posix_memalign Map.empty (junk1 env) 32 sz (alloc1 env) = (h1, d1, s1)"
    by (cases "posix_memalign Map.empty (junk1 env) 32 sz (alloc1 env)") auto
  obtain h2 d2 s2 where p2: "posix_memalign h1 (junk2 env) 32 sz (alloc2 env) = (h2, d2, s2)"
    by (cases "posix_memalign h1 (junk2 env) 32 sz (alloc2 env)") auto
  obtain h3 d3 s3 where p3: "posix_memalign h2 (junk3 env) 32 sz (alloc3 env) = (h3, d3, s3)"
    by (cases "posix_memalign h2 (junk3 env) 32 sz (alloc3 env)") auto
  have "dom h3 = granted env"
    using posix_memalign_dom [OF p1] posix_memalign_dom [OF p2] posix_memalign_dom [OF p3]
    by (simp add: granted_def)
  with p1 p2 p3 show ?thesis by (rule that)
qed

lemma main_simple_exit:
  assumes "main_simple env prog args = (out, Exited st h)"
  shows "(args = [] \<and> st = 1 \<and> h = Map.empty) \<or> (args \<noteq> [] \<and> st = 0 \<and> dom h = granted env)"
proof (cases "args = []")
  case True
  with assms show ?thesis by (simp add: main_usage)
next
  case False
  from assms False obtain v where a: "atoll (args ! 0) = Some v"
    by (cases "atoll (args ! 0)") (auto simp: main_simple_def)
  let ?n = "word_of_int v :: size_t"
  obtain h1 d1 s1 h2 d2 s2 h3 d3 s3 where
    p: "posix_memalign Map.empty (junk1 env) 32 (of_nat sizeof_float * ?n) (alloc1 env) = (h1, d1, s1)"
    "posix_memalign h1 (junk2 env) 32 (of_nat sizeof_float * ?n) (alloc2 env) = (h2, d2, s2)"
    "posix_memalign h2 (junk3 env) 32 (of_nat sizeof_float * ?n) (alloc3 env) = (h3, d3, s3)"
    and d: "dom h3 = granted env"
    by (rule three_posix_memalign)
  from assms obtain h4 where f: "fill h3 d1 d2 ?n = Inr h4"
    and c: "compute h4 d3 d1 d2 ?n = Inr h" and st: "st = 0"
    unfolding main_simple_run [OF False a p] by (auto split: sum.splits)
  from f have "dom h4 = dom h3" unfolding fill_def by (rule fill_loop_dom)
  moreover from c have "dom h = dom h4" unfolding compute_def by (rule compute_loop_dom)
  ultimately show ?thesis using False st d by simp
qed

lemma main_sse_exit:
  assumes "main_sse env prog args = Some (out, Exited st h)"
  shows "(args = [] \<and> st = 1 \<and> h = Map.empty) \<or> (args \<noteq> [] \<and> st = 0 \<and> dom h = granted env)"
proof (cases "args = []")
  case True
  with assms show ?thesis by (simp add: main_usage)
next
  case False
  from assms False obtain v where a: "atoll (args ! 0) = Some v"
    by (cases "atoll (args ! 0)") (auto simp: main_sse_def)
  let ?n = "word_of_int v :: size_t"
  obtain h1 d1 s1 h2 d2 s2 h3 d3 s3 where
    p: "posix_memalign Map.empty (junk1 env) 32 (of_nat sizeof_float * ?n) (alloc1 env) = (h1, d1, s1)"
    "posix_memalign h1 (junk2 env) 32 (of_nat sizeof_float * ?n) (alloc2 env) = (h2, d2, s2)"
    "posix_memalign h2 (junk3 env) 32 (of_nat sizeof_float * ?n) (alloc3 env) = (h3, d3, s3)"
    and d: "dom h3 = granted env"
    by (rule three_posix_memalign)
  from assms obtain h4 where f: "fill h3 d1 d2 ?n = Inr h4"
    and c: "compute_sse h4 d3 d1 d2 (ucast ?n) = Some (Inr h)" and st: "st = 0"
    unfolding main_sse_run [OF False a p] by (auto split: sum.splits option.splits)
  from f have "dom h4 = dom h3" unfolding fill_def by (rule fill_loop_dom)
  moreover from c compute_sse_returns [of h4 d3 d1 d2 "ucast ?n"] have "dom h = dom h4" by auto
  ultimately show ?thesis using False st d by simp
qed

lemma main_sse_returns: "\<exists>y. main_sse env prog args = Some y"
proof (cases "args = []")
  case True
  then show ?thesis by (simp add: main_usage)
next
  case False
  show ?thesis
  proof (cases "atoll (args ! 0)")
    case None
    with False show ?thesis by (simp add: main_sse_def)
  next
    case a: (Some v)
    let ?n = "word_of_int v :: size_t"
    obtain h1 d1 s1 h2 d2 s2 h3 d3 s3 where
      p: "posix_memalign Map.empty (junk1 env) 32 (of_nat sizeof_float * ?n) (alloc1 env) = (h1, d1, s1)"
      "posix_memalign h1 (junk2 env) 32 (of_nat sizeof_float * ?n) (alloc2 env) = (h2, d2, s2)"
      "posix_memalign h2 (junk3 env) 32 (of_nat sizeof_float * ?n) (alloc3 env) = (h3, d3, s3)"
      by (rule three_posix_memalign)
    show ?thesis
      unfolding main_sse_run [OF False a p]
      using compute_sse_returns [of _ d3 d1 d2 "ucast ?n"]
      by (auto split: sum.splits option.splits) (metis option.distinct(1))
  qed
qed

lemma fill_invalid2:
  assumes "h d2 = None" "n \<noteq> 0"
  shows "\<exists>e. fill h d1 d2 n = Inl e"
proof -
  from assms(2) have pos: "0 < n" by (simp add: word_neq_0_conv)
  show ?thesis
  proof (cases "store h d1 0 (f32_of_size 0)")
    case (Inl e)
    with pos show ?thesis unfolding fill_def by (subst fill_loop.simps) simp
  next
    case (Inr h1)
    then have "dom h1 = dom h" by (rule store_dom)
    with assms(1) have "h1 d2 = None" by (auto simp: domIff)
    with pos Inr show ?thesis unfolding fill_def by (subst fill_loop.simps) (simp add: store_def)
  qed
qed

lemma posix_memalign_zero_empty:
  assumes "posix_memalign h p 32 (of_nat sizeof_float * 0) x = (h', p', s)"
    and "\<forall>q xs. h q = Some xs \<longrightarrow> xs = []"
  shows "\<forall>q xs. h' q = Some xs \<longrightarrow> xs = []"
  using assms by (cases x) (auto simp: posix_memalign_def split: if_splits)

lemma not_dom_None: "p \<notin> dom h \<Longrightarrow> h p = None"
  by (simp add: domIff)

lemma main_simple_failed:
  fixes v :: int
  defines "n \<equiv> word_of_int v :: size_t"
  assumes bad: "(alloc1 env = ENOMEM \<and> junk1 env \<notin> granted env) \<or>
      (alloc2 env = ENOMEM \<and> junk2 env \<notin> granted env) \<or>
      (alloc3 env = ENOMEM \<and> junk3 env \<notin> granted env)"
    and args: "args \<noteq> []" "atoll (args ! 0) = Some v"
  shows "\<exists>out st e. main_simple env prog args = (Using_table (unat n) # out, Faulted st e) \<and> st \<noteq> Parse"
proof -
  obtain h1 d1 s1 h2 d2 s2 h3 d3 s3 where
    p: "posix_memalign Map.empty (junk1 env) 32 (of_nat sizeof_float * n) (alloc1 env) = (h1, d1, s1)"
    "posix_memalign h1 (junk2 env) 32 (of_nat sizeof_float * n) (alloc2 env) = (h2, d2, s2)"
    "posix_memalign h2 (junk3 env) 32 (of_nat sizeof_float * n) (alloc3 env) = (h3, d3, s3)"
    and d: "dom h3 = granted env"
    by (rule three_posix_memalign)
  note run = main_simple_run [OF args p [unfolded n_def], folded n_def, of prog]
  from bad posix_memalign_cases [OF p(1)] posix_memalign_cases [OF p(2)] posix_memalign_cases [OF p(3)] d
  have unset: "d1 \<notin> dom h3 \<or> d2 \<notin> dom h3 \<or> d3 \<notin> dom h3" by auto
  show ?thesis
  proof (cases "fill h3 d1 d2 n")
    case (Inl e)
    then show ?thesis unfolding run by simp
  next
    case f: (Inr h4)
    then have d4: "dom h4 = dom h3" unfolding fill_def by (rule fill_loop_dom)
    show ?thesis
    proof (cases "compute h4 d3 d1 d2 n")
      case (Inl e)
      with f show ?thesis unfolding run by simp
    next
      case c: (Inr h5)
      then have d5: "dom h5 = dom h3" using d4 unfolding compute_def by (simp add: compute_loop_dom)
      have "\<forall>xs. h5 d3 = Some xs \<longrightarrow> xs = []"
      proof (cases "d3 \<in> dom h3")
        case False
        with d5 have "d3 \<notin> dom h5" by simp
        then have "h5 d3 = None" by (rule not_dom_None)
        then show ?thesis by simp
      next
        case True
        with unset have "d1 \<notin> dom h3 \<or> d2 \<notin> dom h3" by simp
        then have "h3 d1 = None \<or> h3 d2 = None" by (auto simp: domIff)
        with f fill_invalid [of h3 d1 n d2] fill_invalid2 [of h3 d2 n d1] have n0: "n = 0" by auto
        have e1: "\<forall>q xs. h1 q = Some xs \<longrightarrow> xs = []"
          using p(1) unfolding n0 by (rule posix_memalign_zero_empty) simp
        have e2: "\<forall>q xs. h2 q = Some xs \<longrightarrow> xs = []"
          using p(2) e1 unfolding n0 by (rule posix_memalign_zero_empty)
        have e3: "\<forall>q xs. h3 q = Some xs \<longrightarrow> xs = []"
          using p(3) e2 unfolding n0 by (rule posix_memalign_zero_empty)
        from f c have "h5 = h3" by (simp add: n0 fill_zero compute_zero)
        with e3 show ?thesis by simp
      qed
      then have "print_values h5 d3 = Inl Invalid_access" by (rule print_values_empty)
      with f c show ?thesis unfolding run by simp
    qed
  qed
qed

lemma main_sse_failed:
  fixes v :: int
  defines "n \<equiv> word_of_int v :: size_t"
  assumes bad: "(alloc1 env = ENOMEM \<and> junk1 env \<notin> granted env) \<or>
      (alloc2 env = ENOMEM \<and> junk2 env \<notin> granted env) \<or>
      (alloc3 env = ENOMEM \<and> junk3 env \<notin> granted env)"
    and args: "args \<noteq> []" "atoll (args ! 0) = Some v"
  shows "\<exists>out st e. main_sse env prog args = Some (Using_table (unat n) # out, Faulted st e) \<and> st \<noteq> Parse"
proof -
  obtain h1 d1 s1 h2 d2 s2 h3 d3 s3 where
    p: "posix_memalign Map.empty (junk1 env) 32 (of_nat sizeof_float * n) (alloc1 env) = (h1, d1, s1)"
    "posix_memalign h1 (junk2 env) 32 (of_nat sizeof_float * n) (alloc2 env) = (h2, d2, s2)"
    "posix_memalign h2 (junk3 env) 32 (of_nat sizeof_float * n) (alloc3 env) = (h3, d3, s3)"
    and d: "dom h3 = granted env"
    by (rule three_posix_memalign)
  note run = main_sse_run [OF args p [unfolded n_def], folded n_def, of prog]
  from bad posix_memalign_cases [OF p(1)] posix_memalign_cases [OF p(2)] posix_memalign_cases [OF p(3)] d
  have unset: "d1 \<notin> dom h3 \<or> d2 \<notin> dom h3 \<or> d3 \<notin> dom h3" by auto
  show ?thesis
  proof (cases "fill h3 d1 d2 n")
    case (Inl e)
    then show ?thesis unfolding run by simp
  next
    case f: (Inr h4)
    then have d4: "dom h4 = dom h3" unfolding fill_def by (rule fill_loop_dom)
    from compute_sse_returns [of h4 d3 d1 d2 "ucast n"]
    obtain y where y: "compute_sse h4 d3 d1 d2 (ucast n) = Some y"
      and dy: "\<forall>h'. y = Inr h' \<longrightarrow> dom h' = dom h4"
      by blast
    show ?thesis
    proof (cases y)
      case (Inl e)
      with f y show ?thesis unfolding run by simp
    next
      case c: (Inr h5)
      with dy d4 have d5: "dom h5 = dom h3" by simp
      have "\<forall>xs. h5 d3 = Some xs \<longrightarrow> xs = []"
      proof (cases "d3 \<in> dom h3")
        case False
        with d5 have "d3 \<notin> dom h5" by simp
        then have "h5 d3 = None" by (rule not_dom_None)
        then show ?thesis by simp
      next
        case True
        with unset have "d1 \<notin> dom h3 \<or> d2 \<notin> dom h3" by simp
        then have "h3 d1 = None \<or> h3 d2 = None" by (auto simp: domIff)
        with f fill_invalid [of h3 d1 n d2] fill_invalid2 [of h3 d2 n d1] have n0: "n = 0" by auto
        have e1: "\<forall>q xs. h1 q = Some xs \<longrightarrow> xs = []"
          using p(1) unfolding n0 by (rule posix_memalign_zero_empty) simp
        have e2: "\<forall>q xs. h2 q = Some xs \<longrightarrow> xs = []"
          using p(2) e1 unfolding n0 by (rule posix_memalign_zero_empty)
        have e3: "\<forall>q xs. h3 q = Some xs \<longrightarrow> xs = []"
          using p(3) e2 unfolding n0 by (rule posix_memalign_zero_empty)
        from f y c have "h5 = h3" by (simp add: n0 fill_zero compute_sse_zero)
        with e3 show ?thesis by simp
      qed
      then have "print_values h5 d3 = Inl Invalid_access" by (rule print_values_empty)
      with f y c show ?thesis unfolding run by simp
    qed
  qed
qed

lemma main_failed_first:
  fixes v :: int
  defines "n \<equiv> word_of_int v :: size_t"
  assumes "alloc1 env = ENOMEM" "junk1 env \<notin> granted env"
    and args: "args \<noteq> []" "atoll (args ! 0) = Some v" and "n \<noteq> 0"
  shows "main_simple env prog args = ([Using_table (unat n)], Faulted Fill Invalid_access)"
    and "main_sse env prog args = Some ([Using_table (unat n)], Faulted Fill Invalid_access)"
proof -
  obtain h1 d1 s1 h2 d2 s2 h3 d3 s3 where
    p: "posix_memalign Map.empty (junk1 env) 32 (of_nat sizeof_float * n) (alloc1 env) = (h1, d1, s1)"
    "posix_memalign h1 (junk2 env) 32 (of_nat sizeof_float * n) (alloc2 env) = (h2, d2, s2)"
    "posix_memalign h2 (junk3 env) 32 (of_nat sizeof_float * n) (alloc3 env) = (h3, d3, s3)"
    and d: "dom h3 = granted env"
    by (rule three_posix_memalign)
  from posix_memalign_cases [OF p(1)] assms(2) have "d1 = junk1 env" by auto
  with assms(3) d have "d1 \<notin> dom h3" by simp
  then have "h3 d1 = None" by (rule not_dom_None)
  then have f: "fill h3 d1 d2 n = Inl Invalid_access" using assms(6) by (rule fill_invalid)
  show "main_simple env prog args = ([Using_table (unat n)], Faulted Fill Invalid_access)"
    unfolding main_simple_run [OF args p [unfolded n_def], folded n_def] by (simp add: f)
  show "main_sse env prog args = Some ([Using_table (unat n)], Faulted Fill Invalid_access)"
    unfolding main_sse_run [OF args p [unfolded n_def], folded n_def] by (simp add: f)
qed





lemma atoll_examples:
  "atoll ''abc'' = Some 0" "atoll ''8x'' = Some 8" "atoll ''8'' = Some 8" "atoll ''0'' = Some 0"
  by (simp_all add: atoll_def isspace_def isdigit_def)

lemma granted_examples:
  "granted all_granted = {32, 64, 96}" "granted first_fails = {64, 96}"
  by (auto simp: granted_def granted_at_def all_granted_def first_fails_def)

lemma granted_runs:
  "\<exists>h R. main_simple all_granted ''compute_simple'' [''8x''] =
      ([Using_table 8, Exec_time ''Execution time '' (0, 0) (0, 250),
        Values (R ! 0) (R ! 1) (R ! 2) (R ! 3)], Exited 0 h) \<and>
      dom h = {32, 64, 96} \<and> h 96 = Some R \<and> length R = 8 \<and>
      (\<forall>i<8. R ! i = fadd (f32_of_nat i) (f32_of_nat (2 * i)))"
  "\<exists>h R. main_sse all_granted ''compute_sse'' [''8x''] =
      Some ([Using_table 8, Exec_time ''Execution time using manual sse'' (0, 0) (0, 250),
        Values (R ! 0) (R ! 1) (R ! 2) (R ! 3)], Exited 0 h) \<and>
      dom h = {32, 64, 96} \<and> h 96 = Some R \<and> length R = 8 \<and>
      (\<forall>i<8. R ! i = fadd (f32_of_nat i) (f32_of_nat (2 * i)))"
proof -
  have al: "alloc1 all_granted = Granted 1 (\<lambda>i. NaN)" "alloc2 all_granted = Granted 2 (\<lambda>i. NaN)"
    "alloc3 all_granted = Granted 3 (\<lambda>i. NaN)" "(1::nat) \<noteq> 2" "(1::nat) \<noteq> 3" "(2::nat) \<noteq> 3"
    by (simp_all add: all_granted_def)
  have c: "[''8x''] \<noteq> []" "atoll ([''8x''] ! 0) = Some 8" by (simp_all add: atoll_examples)
  have n: "4 \<le> unat (word_of_int 8 :: size_t)" "unat (word_of_int 8 :: size_t) < 2 ^ 62"
    "unat (word_of_int 8 :: size_t) < 2 ^ 31"
    by simp_all
  have tv: "start_tv all_granted = (0, 0)" "end_tv all_granted = (0, 250)"
    by (simp_all add: all_granted_def)
  from main_simple_granted [OF al c n(1,2), of "''compute_simple''"]
  show "\<exists>h R. main_simple all_granted ''compute_simple'' [''8x''] =
      ([Using_table 8, Exec_time ''Execution time '' (0, 0) (0, 250),
        Values (R ! 0) (R ! 1) (R ! 2) (R ! 3)], Exited 0 h) \<and>
      dom h = {32, 64, 96} \<and> h 96 = Some R \<and> length R = 8 \<and>
      (\<forall>i<8. R ! i = fadd (f32_of_nat i) (f32_of_nat (2 * i)))"
    by (simp add: tv)
  from main_sse_granted [OF al c n(1,3), of "''compute_sse''"]
  show "\<exists>h R. main_sse all_granted ''compute_sse'' [''8x''] =
      Some ([Using_table 8, Exec_time ''Execution time using manual sse'' (0, 0) (0, 250),
        Values (R ! 0) (R ! 1) (R ! 2) (R ! 3)], Exited 0 h) \<and>
      dom h = {32, 64, 96} \<and> h 96 = Some R \<and> length R = 8 \<and>
      (\<forall>i<8. R ! i = fadd (f32_of_nat i) (f32_of_nat (2 * i)))"
    by (simp add: tv)
qed

text \<open>
  The two programs run with the argument \<^verbatim>\<open>4294967304\<close>, that is \<open>2^32 + 8\<close>, on a
  platform that grants the three allocations at distinct addresses. The vectorised
  program computes the indices below 8, the scalar one every index.
\<close>

lemma small_sums:
  "fadd (f32_of_nat 0) (f32_of_nat (2 * 0)) = f32_of_nat 0"
  "fadd (f32_of_nat 1) (f32_of_nat (2 * 1)) = f32_of_nat 3"
  "fadd (f32_of_nat 2) (f32_of_nat (2 * 2)) = f32_of_nat 6"
  "fadd (f32_of_nat 3) (f32_of_nat (2 * 3)) = f32_of_nat 9"
  "fadd (f32_of_nat 8) (f32_of_nat (2 * 8)) = f32_of_nat 24"
  using fadd_of_nat_exact [of 0] fadd_of_nat_exact [of 1] fadd_of_nat_exact [of 2]
    fadd_of_nat_exact [of 3] fadd_of_nat_exact [of 8]
  by simp_all

lemma main_sse_large_count:
  assumes "alloc1 env = Granted k1 g1" "alloc2 env = Granted k2 g2" "alloc3 env = Granted k3 g3"
    and "k1 \<noteq> k2" "k1 \<noteq> k3" "k2 \<noteq> k3"
  shows "\<exists>h R. main_sse env prog [''4294967304''] =
        Some ([Using_table 4294967304,
          Exec_time ''Execution time using manual sse'' (start_tv env) (end_tv env),
          Values (f32_of_nat 0) (f32_of_nat 3) (f32_of_nat 6) (f32_of_nat 9)], Exited 0 h) \<and>
        h (32 * k3) = Some R \<and> length R = 4294967304 \<and>
        (\<forall>i<4294967304. R ! i =
           (if i < 8 then fadd (f32_of_nat i) (f32_of_nat (2 * i)) else g3 i)) \<and>
        R ! 8 = g3 8"
proof -
  let ?n = "4294967304 :: size_t"
  let ?args = "[''4294967304'']"
  have m: "unat (scast (ucast ?n :: c_int) :: size_t) = 8" by simp
  have p: "unat (nsse_of (ucast ?n)) = 8" by (simp only: unat_nsse_of m) simp
  have a: "?args \<noteq> []" by simp
  have t: "atoll (?args ! 0) = Some (uint ?n)"
    by (simp add: atoll_def isspace_def isdigit_def)
  have u: "4 \<le> unat ?n" "unat ?n < 2 ^ 62" by simp_all
  have q: "unat (nsse_of (ucast ?n)) \<le> unat ?n" by (simp only: p) simp
  have un: "unat ?n = 4294967304" by simp
  from main_sse_granted_general [OF assms a t u q, of prog]
  have "\<exists>h R. main_sse env prog ?args =
      Some ([Using_table 4294967304,
        Exec_time ''Execution time using manual sse'' (start_tv env) (end_tv env),
        Values (R ! 0) (R ! 1) (R ! 2) (R ! 3)], Exited 0 h) \<and>
      h (32 * k3) = Some R \<and> length R = 4294967304 \<and>
      (\<forall>i<4294967304. R ! i =
         (if i < 8 then fadd (f32_of_nat i) (f32_of_nat (2 * i)) else g3 i))"
    by (simp only: p un) blast
  then obtain h R where run: "main_sse env prog ?args =
      Some ([Using_table 4294967304,
        Exec_time ''Execution time using manual sse'' (start_tv env) (end_tv env),
        Values (R ! 0) (R ! 1) (R ! 2) (R ! 3)], Exited 0 h)"
    and hr: "h (32 * k3) = Some R" "length R = 4294967304"
    and nth: "\<forall>i<4294967304. R ! i =
         (if i < 8 then fadd (f32_of_nat i) (f32_of_nat (2 * i)) else g3 i)"
    by blast
  have "R ! 0 = fadd (f32_of_nat 0) (f32_of_nat (2 * 0))" using nth [rule_format, of 0] by simp
  then have v0: "R ! 0 = f32_of_nat 0" by (simp only: small_sums)
  have "R ! 1 = fadd (f32_of_nat 1) (f32_of_nat (2 * 1))" using nth [rule_format, of 1] by simp
  then have v1: "R ! 1 = f32_of_nat 3" by (simp only: small_sums)
  have "R ! 2 = fadd (f32_of_nat 2) (f32_of_nat (2 * 2))" using nth [rule_format, of 2] by simp
  then have v2: "R ! 2 = f32_of_nat 6" by (simp only: small_sums)
  have "R ! 3 = fadd (f32_of_nat 3) (f32_of_nat (2 * 3))" using nth [rule_format, of 3] by simp
  then have v3: "R ! 3 = f32_of_nat 9" by (simp only: small_sums)
  have v8: "R ! 8 = g3 8" using nth [rule_format, of 8] by simp
  show ?thesis
  proof (intro exI conjI)
    show "main_sse env prog ?args =
        Some ([Using_table 4294967304,
          Exec_time ''Execution time using manual sse'' (start_tv env) (end_tv env),
          Values (f32_of_nat 0) (f32_of_nat 3) (f32_of_nat 6) (f32_of_nat 9)], Exited 0 h)"
      using run by (simp only: v0 v1 v2 v3)
    show "h (32 * k3) = Some R" by (rule hr)
    show "length R = 4294967304" by (rule hr)
    show "\<forall>i<4294967304. R ! i =
           (if i < 8 then fadd (f32_of_nat i) (f32_of_nat (2 * i)) else g3 i)" by (rule nth)
    show "R ! 8 = g3 8" by (rule v8)
  qed
qed

lemma main_simple_large_count:
  assumes "alloc1 env = Granted k1 g1" "alloc2 env = Granted k2 g2" "alloc3 env = Granted k3 g3"
    and "k1 \<noteq> k2" "k1 \<noteq> k3" "k2 \<noteq> k3"
  shows "\<exists>h R. main_simple env prog [''4294967304''] =
        ([Using_table 4294967304, Exec_time ''Execution time '' (start_tv env) (end_tv env),
          Values (f32_of_nat 0) (f32_of_nat 3) (f32_of_nat 6) (f32_of_nat 9)], Exited 0 h) \<and>
        h (32 * k3) = Some R \<and> length R = 4294967304 \<and>
        (\<forall>i<4294967304. R ! i = fadd (f32_of_nat i) (f32_of_nat (2 * i))) \<and>
        R ! 8 = f32_of_nat 24"
proof -
  let ?n = "4294967304 :: size_t"
  let ?args = "[''4294967304'']"
  have a: "?args \<noteq> []" by simp
  have t: "atoll (?args ! 0) = Some 4294967304"
    by (simp add: atoll_def isspace_def isdigit_def)
  have u: "4 \<le> unat (word_of_int 4294967304 :: size_t)"
    "unat (word_of_int 4294967304 :: size_t) < 2 ^ 62" by simp_all
  have un: "unat (word_of_int 4294967304 :: size_t) = 4294967304" by simp
  from main_simple_granted [OF assms a t u, of prog]
  have "\<exists>h R. main_simple env prog ?args =
      ([Using_table 4294967304, Exec_time ''Execution time '' (start_tv env) (end_tv env),
        Values (R ! 0) (R ! 1) (R ! 2) (R ! 3)], Exited 0 h) \<and>
      h (32 * k3) = Some R \<and> length R = 4294967304 \<and>
      (\<forall>i<4294967304. R ! i = fadd (f32_of_nat i) (f32_of_nat (2 * i)))"
    by (simp only: un) blast
  then obtain h R where run: "main_simple env prog ?args =
      ([Using_table 4294967304, Exec_time ''Execution time '' (start_tv env) (end_tv env),
        Values (R ! 0) (R ! 1) (R ! 2) (R ! 3)], Exited 0 h)"
    and hr: "h (32 * k3) = Some R" "length R = 4294967304"
    and nth: "\<forall>i<4294967304. R ! i = fadd (f32_of_nat i) (f32_of_nat (2 * i))"
    by blast
  have "R ! 0 = fadd (f32_of_nat 0) (f32_of_nat (2 * 0))" using nth [rule_format, of 0] by simp
  then have v0: "R ! 0 = f32_of_nat 0" by (simp only: small_sums)
  have "R ! 1 = fadd (f32_of_nat 1) (f32_of_nat (2 * 1))" using nth [rule_format, of 1] by simp
  then have v1: "R ! 1 = f32_of_nat 3" by (simp only: small_sums)
  have "R ! 2 = fadd (f32_of_nat 2) (f32_of_nat (2 * 2))" using nth [rule_format, of 2] by simp
  then have v2: "R ! 2 = f32_of_nat 6" by (simp only: small_sums)
  have "R ! 3 = fadd (f32_of_nat 3) (f32_of_nat (2 * 3))" using nth [rule_format, of 3] by simp
  then have v3: "R ! 3 = f32_of_nat 9" by (simp only: small_sums)
  have "R ! 8 = fadd (f32_of_nat 8) (f32_of_nat (2 * 8))" using nth [rule_format, of 8] by simp
  then have v8: "R ! 8 = f32_of_nat 24" by (simp only: small_sums)
  show ?thesis
  proof (intro exI conjI)
    show "main_simple env prog ?args =
        ([Using_table 4294967304, Exec_time ''Execution time '' (start_tv env) (end_tv env),
          Values (f32_of_nat 0) (f32_of_nat 3) (f32_of_nat 6) (f32_of_nat 9)], Exited 0 h)"
      using run by (simp only: v0 v1 v2 v3)
    show "h (32 * k3) = Some R" by (rule hr)
    show "length R = 4294967304" by (rule hr)
    show "\<forall>i<4294967304. R ! i = fadd (f32_of_nat i) (f32_of_nat (2 * i))" by (rule nth)
    show "R ! 8 = f32_of_nat 24" by (rule v8)
  qed
qed

lemma feq_24: "feq (f32_of_nat 24) (f32_of_nat 24)"
proof -
  have "(24 :: nat) < 2 ^ 24" by simp
  then have "f32_of_nat 24 = Finite False (24 * 2 ^ 149)" by (rule f32_of_nat_small)
  then show ?thesis by (simp only: feq.simps simp_thms)
qed

section \<open>The claims\<close>

text \<open>
  In the theorems below \<open>a\<close>, \<open>b\<close> and \<open>r\<close> are the two input buffers and the result
  buffer: three different allocated blocks \<open>A\<close>, \<open>B\<close> and \<open>R\<close> of the heap, each with
  room for the element count.
\<close>

subsection \<open>C1: the vectorised program on a count above the range of int\<close>

text \<open>
  The element count \<open>n\<close> of \<^verbatim>\<open>main\<close> is a \<^verbatim>\<open>size_t\<close>, and so is the parameter of the
  scalar kernel \<^verbatim>\<open>compute\<close>. The parameter of \<^verbatim>\<open>compute_sse\<close> is an \<^verbatim>\<open>int\<close>: the call
  \<^verbatim>\<open>compute_sse(result, data1, data2, n)\<close> narrows the count. While the count is in the
  range of \<^verbatim>\<open>int\<close> the kernel does what the claim says: for an \<^verbatim>\<open>int\<close> count \<open>n >= 0\<close>, on
  16-byte aligned buffers that the input generator has filled for \<open>n\<close> elements, it
  returns without a fault, every index \<open>i < floor(n/4)*4\<close> of the result satisfies
  \<open>result[i] == float(i) + float(2*i)\<close>, and the lane width \<open>nb_items\<close> is the constant 4.
  (\<open>main_sse_granted\<close> above is the same fact for the whole run, for \<open>4 <= n < 2^31\<close>.)
\<close>

lemma vectorized_prefix_in_int_range:
  fixes n :: c_int
  assumes "0 \<le> sint n"
    and "h a = Some A" "h b = Some B" "h r = Some R"
    and "a \<noteq> b" "r \<noteq> a" "r \<noteq> b"
    and "nat (sint n) \<le> length A" "nat (sint n) \<le> length B" "nat (sint n) \<le> length R"
    and "16 dvd a" "16 dvd b" "16 dvd r"
  shows "nb_items = 4 \<and>
    (\<exists>h1 h2 R'. fill h a b (scast n) = Inr h1 \<and> compute_sse h1 r a b n = Some (Inr h2) \<and>
       h2 r = Some R' \<and> length R' = length R \<and>
       (\<forall>i<4 * (nat (sint n) div 4).
          R' ! i = fadd (f32_of_nat i) (f32_of_nat (2 * i)) \<and>
          feq (R' ! i) (fadd (f32_of_nat i) (f32_of_nat (2 * i)))))"
proof -
  let ?n = "scast n :: size_t"
  have un: "unat ?n = nat (sint n)" using assms(1) by (simp add: unat_scast)
  have "unat ?n \<le> length A" "unat ?n \<le> length B" using assms(8,9) by (simp_all only: un)
  from fill_spec [OF assms(2,3,5) this]
  obtain A' B' where f: "fill h a b ?n = Inr (h(a \<mapsto> A', b \<mapsto> B'))"
    and len: "length A' = length A" "length B' = length B"
    and gen: "\<forall>j<nat (sint n). A' ! j = f32_of_nat j \<and> B' ! j = f32_of_nat (2 * j)"
    by (auto simp only: un)
  let ?h1 = "h(a \<mapsto> A', b \<mapsto> B')"
  let ?m = "4 * (nat (sint n) div 4)"
  have "?h1 r = Some R" "?h1 a = Some A'" "?h1 b = Some B'"
    using assms by simp_all
  moreover have "nat (sint n) \<le> length R" "nat (sint n) \<le> length A'" "nat (sint n) \<le> length B'"
    using assms len by simp_all
  ultimately have "\<exists>R'. compute_sse ?h1 r a b n = Some (Inr (?h1(r \<mapsto> R'))) \<and> length R' = length R \<and>
    (\<forall>j<length R. R' ! j = (if j < ?m then fadd (A' ! j) (B' ! j) else R ! j))"
    using assms(1,6,7,11,12,13) by (intro compute_sse_spec)
  then obtain R' where c: "compute_sse ?h1 r a b n = Some (Inr (?h1(r \<mapsto> R')))"
    and lenR: "length R' = length R"
    and nthR: "\<forall>j<length R. R' ! j = (if j < ?m then fadd (A' ! j) (B' ! j) else R ! j)"
    by blast
  have m: "?m \<le> nat (sint n)" by simp
  have "\<forall>i<?m. R' ! i = fadd (f32_of_nat i) (f32_of_nat (2 * i)) \<and>
       feq (R' ! i) (fadd (f32_of_nat i) (f32_of_nat (2 * i)))"
  proof (intro allI impI)
    fix i
    assume i: "i < ?m"
    then have i': "i < nat (sint n)" using m by (rule less_le_trans)
    then have "i < unat ?n" by (simp only: un)
    then have "feq (fadd (f32_of_nat i) (f32_of_nat (2 * i))) (fadd (f32_of_nat i) (f32_of_nat (2 * i)))"
      by (rule feq_generated)
    moreover have "R' ! i = fadd (f32_of_nat i) (f32_of_nat (2 * i))"
      using i i' nthR gen assms(10) by simp
    ultimately show "R' ! i = fadd (f32_of_nat i) (f32_of_nat (2 * i)) \<and>
       feq (R' ! i) (fadd (f32_of_nat i) (f32_of_nat (2 * i)))"
      by simp
  qed
  moreover have "(?h1(r \<mapsto> R')) r = Some R'" by simp
  ultimately have "\<exists>h1 h2 R'. fill h a b ?n = Inr h1 \<and> compute_sse h1 r a b n = Some (Inr h2) \<and>
       h2 r = Some R' \<and> length R' = length R \<and>
       (\<forall>i<?m. R' ! i = fadd (f32_of_nat i) (f32_of_nat (2 * i)) \<and>
          feq (R' ! i) (fadd (f32_of_nat i) (f32_of_nat (2 * i))))"
    using f c lenR by blast
  then show ?thesis by (simp only: nb_items_4 simp_thms)
qed

text \<open>The lemma at \<open>n = 10\<close>: index 7 of the result holds \<open>7 + 14 = 21\<close>.\<close>

lemma vectorized_prefix_in_int_range_example:
  "nb_items = 4 \<and>
   (\<exists>h1 h2 R'. fill [32 \<mapsto> replicate 10 NaN, 64 \<mapsto> replicate 10 NaN, 96 \<mapsto> replicate 10 NaN] 32 64 10 = Inr h1 \<and>
     compute_sse h1 96 32 64 10 = Some (Inr h2) \<and> h2 96 = Some R' \<and>
     R' ! 7 = fadd (f32_of_nat 7) (f32_of_nat 14) \<and> R' ! 7 = f32_of_nat 21)"
proof -
  let ?h = "[32 \<mapsto> replicate 10 NaN, 64 \<mapsto> replicate 10 NaN, 96 \<mapsto> replicate 10 NaN] :: heap"
  have "nb_items = 4 \<and>
    (\<exists>h1 h2 R'. fill ?h 32 64 (scast (10 :: c_int)) = Inr h1 \<and> compute_sse h1 96 32 64 10 = Some (Inr h2) \<and>
       h2 96 = Some R' \<and> length R' = length (replicate 10 NaN :: f32 list) \<and>
       (\<forall>i<4 * (nat (sint (10 :: c_int)) div 4).
          R' ! i = fadd (f32_of_nat i) (f32_of_nat (2 * i)) \<and>
          feq (R' ! i) (fadd (f32_of_nat i) (f32_of_nat (2 * i)))))"
    by (rule vectorized_prefix_in_int_range [where h = ?h and a = 32 and b = 64 and r = 96 and n = 10
          and A = "replicate 10 NaN" and B = "replicate 10 NaN" and R = "replicate 10 NaN"])
      simp_all
  then obtain h1 h2 R' where run: "fill ?h 32 64 10 = Inr h1" "compute_sse h1 96 32 64 10 = Some (Inr h2)"
    "h2 96 = Some R'"
    and nth: "\<forall>i<8. R' ! i = fadd (f32_of_nat i) (f32_of_nat (2 * i))"
    by auto
  from nth have "R' ! 7 = fadd (f32_of_nat 7) (f32_of_nat (2 * 7))" by simp
  moreover have "fadd (f32_of_nat 7) (f32_of_nat (2 * 7)) = f32_of_nat (3 * 7)"
    by (rule fadd_of_nat_exact) simp
  ultimately have "R' ! 7 = fadd (f32_of_nat 7) (f32_of_nat 14)" "R' ! 7 = f32_of_nat 21"
    by simp_all
  with run show ?thesis by (auto simp: nb_items_4)
qed

text \<open>
  Claim C1 says that for every element count \<open>n >= 0\<close>, after the vectorised kernel has run
  on the generated inputs, every index \<open>i < floor(n/4)*4\<close> satisfies
  \<open>result[i] == float(i) + float(2*i)\<close>. The program does not do that at the argument
  \<^verbatim>\<open>4294967304\<close>, the count \<open>n = 2^32 + 8\<close>, for which \<open>floor(n/4)*4 = n\<close>. On every platform
  that grants the three allocations, at distinct addresses, the run of compute\_sse.c
  prints the count and the values 0, 3, 6, 9 and exits with status 0, and its result
  buffer holds the sums at the indices below 8 only: from index 8 on it holds what the
  allocation left there, so \<open>result[8] == float(8) + float(16)\<close>, which is 24, holds only if
  the uninitialised float at index 8 happened to be 24. The run of compute\_simple.c on
  the same platform with the same argument, whose kernel takes the \<^verbatim>\<open>size_t\<close> count,
  leaves the sum at every index below \<open>n\<close>, and 24 at index 8.
\<close>

theorem vectorized_prefix_large_count:
  assumes "alloc1 env = Granted k1 g1" "alloc2 env = Granted k2 g2" "alloc3 env = Granted k3 g3"
    and "k1 \<noteq> k2" "k1 \<noteq> k3" "k2 \<noteq> k3"
  shows "(8 :: nat) < 4 * (4294967304 div 4) \<and>
    fadd (f32_of_nat 8) (f32_of_nat (2 * 8)) = f32_of_nat 24 \<and>
    feq (f32_of_nat 24) (f32_of_nat 24) \<and>
    (\<exists>h R. main_sse env prog [''4294967304''] =
        Some ([Using_table 4294967304,
          Exec_time ''Execution time using manual sse'' (start_tv env) (end_tv env),
          Values (f32_of_nat 0) (f32_of_nat 3) (f32_of_nat 6) (f32_of_nat 9)], Exited 0 h) \<and>
        h (32 * k3) = Some R \<and> length R = 4294967304 \<and>
        (\<forall>i<4294967304. R ! i =
           (if i < 8 then fadd (f32_of_nat i) (f32_of_nat (2 * i)) else g3 i)) \<and>
        R ! 8 = g3 8) \<and>
    (\<exists>h R. main_simple env prog [''4294967304''] =
        ([Using_table 4294967304, Exec_time ''Execution time '' (start_tv env) (end_tv env),
          Values (f32_of_nat 0) (f32_of_nat 3) (f32_of_nat 6) (f32_of_nat 9)], Exited 0 h) \<and>
        h (32 * k3) = Some R \<and> length R = 4294967304 \<and>
        (\<forall>i<4294967304. R ! i = fadd (f32_of_nat i) (f32_of_nat (2 * i))) \<and>
        R ! 8 = f32_of_nat 24)"
proof (intro conjI)
  show "(8 :: nat) < 4 * (4294967304 div 4)" by simp
  show "fadd (f32_of_nat 8) (f32_of_nat (2 * 8)) = f32_of_nat 24" by (rule small_sums)
  show "feq (f32_of_nat 24) (f32_of_nat 24)" by (rule feq_24)
  show "\<exists>h R. main_sse env prog [''4294967304''] =
        Some ([Using_table 4294967304,
          Exec_time ''Execution time using manual sse'' (start_tv env) (end_tv env),
          Values (f32_of_nat 0) (f32_of_nat 3) (f32_of_nat 6) (f32_of_nat 9)], Exited 0 h) \<and>
        h (32 * k3) = Some R \<and> length R = 4294967304 \<and>
        (\<forall>i<4294967304. R ! i =
           (if i < 8 then fadd (f32_of_nat i) (f32_of_nat (2 * i)) else g3 i)) \<and>
        R ! 8 = g3 8"
    using assms by (rule main_sse_large_count)
  show "\<exists>h R. main_simple env prog [''4294967304''] =
        ([Using_table 4294967304, Exec_time ''Execution time '' (start_tv env) (end_tv env),
          Values (f32_of_nat 0) (f32_of_nat 3) (f32_of_nat 6) (f32_of_nat 9)], Exited 0 h) \<and>
        h (32 * k3) = Some R \<and> length R = 4294967304 \<and>
        (\<forall>i<4294967304. R ! i = fadd (f32_of_nat i) (f32_of_nat (2 * i))) \<and>
        R ! 8 = f32_of_nat 24"
    using assms by (rule main_simple_large_count)
qed

text \<open>
  The theorem on the platform \<open>all_granted\<close>, whose blocks hold NaN when allocated: after
  the run of compute\_sse.c index 7 of the result holds the sum and index 8 holds NaN, which
  is not \<open>==\<close> to 24; after the run of compute\_simple.c index 8 holds 24.
\<close>

theorem vectorized_prefix_large_count_witness:
  "(\<exists>h R. main_sse all_granted ''compute_sse'' [''4294967304''] =
        Some ([Using_table 4294967304,
          Exec_time ''Execution time using manual sse'' (0, 0) (0, 250),
          Values (f32_of_nat 0) (f32_of_nat 3) (f32_of_nat 6) (f32_of_nat 9)], Exited 0 h) \<and>
        h 96 = Some R \<and> length R = 4294967304 \<and>
        R ! 7 = fadd (f32_of_nat 7) (f32_of_nat (2 * 7)) \<and> R ! 8 = NaN \<and>
        \<not> feq (R ! 8) (fadd (f32_of_nat 8) (f32_of_nat (2 * 8)))) \<and>
   (\<exists>h R. main_simple all_granted ''compute_simple'' [''4294967304''] =
        ([Using_table 4294967304, Exec_time ''Execution time '' (0, 0) (0, 250),
          Values (f32_of_nat 0) (f32_of_nat 3) (f32_of_nat 6) (f32_of_nat 9)], Exited 0 h) \<and>
        h 96 = Some R \<and> length R = 4294967304 \<and> R ! 8 = f32_of_nat 24 \<and>
        feq (R ! 8) (fadd (f32_of_nat 8) (f32_of_nat (2 * 8))))"
proof -
  have e: "alloc1 all_granted = Granted 1 (\<lambda>i. NaN)" "alloc2 all_granted = Granted 2 (\<lambda>i. NaN)"
    "alloc3 all_granted = Granted 3 (\<lambda>i. NaN)" "(1::nat) \<noteq> 2" "(1::nat) \<noteq> 3" "(2::nat) \<noteq> 3"
    by (simp_all add: all_granted_def)
  have tv: "start_tv all_granted = (0, 0)" "end_tv all_granted = (0, 250)"
    by (simp_all add: all_granted_def)
  have k: "32 * (3::nat) = 96" by simp
  note inst = vectorized_prefix_large_count [OF e]
  from inst have sum: "fadd (f32_of_nat 8) (f32_of_nat (2 * 8)) = f32_of_nat 24"
    and f: "feq (f32_of_nat 24) (f32_of_nat 24)"
    by (rule conjunct1 [OF conjunct2], rule conjunct1 [OF conjunct2 [OF conjunct2]])
  from inst have "\<exists>h R. main_sse all_granted ''compute_sse'' [''4294967304''] =
        Some ([Using_table 4294967304,
          Exec_time ''Execution time using manual sse'' (start_tv all_granted) (end_tv all_granted),
          Values (f32_of_nat 0) (f32_of_nat 3) (f32_of_nat 6) (f32_of_nat 9)], Exited 0 h) \<and>
        h (32 * 3) = Some R \<and> length R = 4294967304 \<and>
        (\<forall>i<4294967304. R ! i =
           (if i < 8 then fadd (f32_of_nat i) (f32_of_nat (2 * i)) else NaN)) \<and>
        R ! 8 = NaN"
    by (rule conjunct1 [OF conjunct2 [OF conjunct2 [OF conjunct2]]])
  then obtain h R where sse: "main_sse all_granted ''compute_sse'' [''4294967304''] =
        Some ([Using_table 4294967304,
          Exec_time ''Execution time using manual sse'' (0, 0) (0, 250),
          Values (f32_of_nat 0) (f32_of_nat 3) (f32_of_nat 6) (f32_of_nat 9)], Exited 0 h)"
    and sr: "h 96 = Some R" "length R = 4294967304" "R ! 8 = NaN"
    and nth: "\<forall>i<4294967304. R ! i =
           (if i < 8 then fadd (f32_of_nat i) (f32_of_nat (2 * i)) else NaN)"
    unfolding tv k by blast
  have v7: "R ! 7 = fadd (f32_of_nat 7) (f32_of_nat (2 * 7))"
    using nth [rule_format, of 7] by simp
  from inst have "\<exists>h R. main_simple all_granted ''compute_simple'' [''4294967304''] =
        ([Using_table 4294967304,
          Exec_time ''Execution time '' (start_tv all_granted) (end_tv all_granted),
          Values (f32_of_nat 0) (f32_of_nat 3) (f32_of_nat 6) (f32_of_nat 9)], Exited 0 h) \<and>
        h (32 * 3) = Some R \<and> length R = 4294967304 \<and>
        (\<forall>i<4294967304. R ! i = fadd (f32_of_nat i) (f32_of_nat (2 * i))) \<and>
        R ! 8 = f32_of_nat 24"
    by (rule conjunct2 [OF conjunct2 [OF conjunct2 [OF conjunct2]]])
  then obtain h' R' where simple: "main_simple all_granted ''compute_simple'' [''4294967304''] =
        ([Using_table 4294967304, Exec_time ''Execution time '' (0, 0) (0, 250),
          Values (f32_of_nat 0) (f32_of_nat 3) (f32_of_nat 6) (f32_of_nat 9)], Exited 0 h')"
    and sr': "h' 96 = Some R'" "length R' = 4294967304" "R' ! 8 = f32_of_nat 24"
    unfolding tv k by blast
  have n1: "\<not> feq (R ! 8) (fadd (f32_of_nat 8) (f32_of_nat (2 * 8)))"
    by (simp only: sr(3) feq.simps simp_thms)
  have n2: "feq (R' ! 8) (fadd (f32_of_nat 8) (f32_of_nat (2 * 8)))"
    by (simp only: sr'(3) sum f)
  have "\<exists>h R. main_sse all_granted ''compute_sse'' [''4294967304''] =
        Some ([Using_table 4294967304,
          Exec_time ''Execution time using manual sse'' (0, 0) (0, 250),
          Values (f32_of_nat 0) (f32_of_nat 3) (f32_of_nat 6) (f32_of_nat 9)], Exited 0 h) \<and>
        h 96 = Some R \<and> length R = 4294967304 \<and>
        R ! 7 = fadd (f32_of_nat 7) (f32_of_nat (2 * 7)) \<and> R ! 8 = NaN \<and>
        \<not> feq (R ! 8) (fadd (f32_of_nat 8) (f32_of_nat (2 * 8)))"
    using sse sr v7 n1 by (intro exI conjI)
  moreover have "\<exists>h R. main_simple all_granted ''compute_simple'' [''4294967304''] =
        ([Using_table 4294967304, Exec_time ''Execution time '' (0, 0) (0, 250),
          Values (f32_of_nat 0) (f32_of_nat 3) (f32_of_nat 6) (f32_of_nat 9)], Exited 0 h) \<and>
        h 96 = Some R \<and> length R = 4294967304 \<and> R ! 8 = f32_of_nat 24 \<and>
        feq (R ! 8) (fadd (f32_of_nat 8) (f32_of_nat (2 * 8)))"
    using simple sr' n2 by (intro exI conjI)
  ultimately show ?thesis by (rule conjI)
qed

subsection \<open>C2: the scalar kernel on generated inputs\<close>

text \<open>
  Claim C2. For every element count \<open>n\<close> (a \<^verbatim>\<open>size_t\<close>), the input generator followed by
  the scalar kernel returns without a fault, and every index \<open>i < n\<close> of the result
  satisfies \<open>result[i] == float(i) + float(2*i)\<close>, with the float addition and the float
  comparison of C; the value is also the same float, not only an equal one. For
  \<open>n = 8\<close> the first eight results are the floats \<open>0, 3, 6, 9, 12, 15, 18, 21\<close>.
\<close>

theorem scalar_kernel_correct:
  fixes n :: size_t
  assumes "h a = Some A" "h b = Some B" "h r = Some R"
    and "a \<noteq> b" "r \<noteq> a" "r \<noteq> b"
    and "unat n \<le> length A" "unat n \<le> length B" "unat n \<le> length R"
  shows "\<exists>h1 h2 R'. fill h a b n = Inr h1 \<and> compute h1 r a b n = Inr h2 \<and>
    h2 r = Some R' \<and> length R' = length R \<and>
    (\<forall>i<unat n. R' ! i = fadd (f32_of_nat i) (f32_of_nat (2 * i)) \<and>
       feq (R' ! i) (fadd (f32_of_nat i) (f32_of_nat (2 * i)))) \<and>
    (n = 8 \<longrightarrow> take 8 R' = map f32_of_nat [0, 3, 6, 9, 12, 15, 18, 21])"
proof -
  from fill_spec [OF assms(1,2,4,7,8)]
  obtain A' B' where f: "fill h a b n = Inr (h(a \<mapsto> A', b \<mapsto> B'))"
    and len: "length A' = length A" "length B' = length B"
    and gen: "\<forall>j<unat n. A' ! j = f32_of_nat j \<and> B' ! j = f32_of_nat (2 * j)"
    by blast
  let ?h1 = "h(a \<mapsto> A', b \<mapsto> B')"
  have "?h1 r = Some R" "?h1 a = Some A'" "?h1 b = Some B'"
    using assms by simp_all
  moreover have "unat n \<le> length R" "unat n \<le> length A'" "unat n \<le> length B'"
    using assms len by simp_all
  ultimately have "\<exists>R'. compute ?h1 r a b n = Inr (?h1(r \<mapsto> R')) \<and> length R' = length R \<and>
    (\<forall>j<length R. R' ! j = (if j < unat n then fadd (A' ! j) (B' ! j) else R ! j))"
    using assms(5,6) by (intro compute_spec)
  then obtain R' where c: "compute ?h1 r a b n = Inr (?h1(r \<mapsto> R'))"
    and lenR: "length R' = length R"
    and nthR: "\<forall>j<length R. R' ! j = (if j < unat n then fadd (A' ! j) (B' ! j) else R ! j)"
    by blast
  have val: "R' ! i = fadd (f32_of_nat i) (f32_of_nat (2 * i))" if "i < unat n" for i
    using that nthR gen assms(9) by simp
  have "\<forall>i<unat n. R' ! i = fadd (f32_of_nat i) (f32_of_nat (2 * i)) \<and>
       feq (R' ! i) (fadd (f32_of_nat i) (f32_of_nat (2 * i)))"
    using val feq_generated [of _ n] by simp
  moreover have "take 8 R' = map f32_of_nat [0, 3, 6, 9, 12, 15, 18, 21]" if "n = 8"
  proof -
    have "8 \<le> length R'" using assms(9) lenR that by simp
    then have "take 8 R' = [R' ! 0, R' ! 1, R' ! 2, R' ! 3, R' ! 4, R' ! 5, R' ! 6, R' ! 7]"
      by (rule take8)
    moreover have "R' ! i = f32_of_nat (3 * i)" if "i < 8" for i
    proof -
      have "R' ! i = fadd (f32_of_nat i) (f32_of_nat (2 * i))"
        using that \<open>n = 8\<close> by (intro val) simp
      moreover have "3 * i < 2 ^ 24" using that by simp
      ultimately show ?thesis by (simp only: fadd_of_nat_exact)
    qed
    from this [of 0] this [of 1] this [of 2] this [of 3] this [of 4] this [of 5] this [of 6] this [of 7]
    have "[R' ! 0, R' ! 1, R' ! 2, R' ! 3, R' ! 4, R' ! 5, R' ! 6, R' ! 7] =
      map f32_of_nat [0, 3, 6, 9, 12, 15, 18, 21]"
      by simp
    ultimately show ?thesis by simp
  qed
  moreover have "(?h1(r \<mapsto> R')) r = Some R'" by simp
  ultimately show ?thesis using f c lenR by blast
qed

text \<open>
  The theorem at \<open>n = 8\<close>, on three blocks of eight NaNs at the addresses 32, 64 and 96.
\<close>

theorem scalar_kernel_correct_witness:
  "\<exists>h1 h2. fill [32 \<mapsto> replicate 8 NaN, 64 \<mapsto> replicate 8 NaN, 96 \<mapsto> replicate 8 NaN] 32 64 8 = Inr h1 \<and>
     compute h1 96 32 64 8 = Inr h2 \<and>
     h2 96 = Some (map f32_of_nat [0, 3, 6, 9, 12, 15, 18, 21])"
proof -
  let ?h = "[32 \<mapsto> replicate 8 NaN, 64 \<mapsto> replicate 8 NaN, 96 \<mapsto> replicate 8 NaN] :: heap"
  have "\<exists>h1 h2 R'. fill ?h 32 64 8 = Inr h1 \<and> compute h1 96 32 64 8 = Inr h2 \<and>
    h2 96 = Some R' \<and> length R' = length (replicate 8 NaN :: f32 list) \<and>
    (\<forall>i<unat (8 :: size_t). R' ! i = fadd (f32_of_nat i) (f32_of_nat (2 * i)) \<and>
       feq (R' ! i) (fadd (f32_of_nat i) (f32_of_nat (2 * i)))) \<and>
    ((8 :: size_t) = 8 \<longrightarrow> take 8 R' = map f32_of_nat [0, 3, 6, 9, 12, 15, 18, 21])"
    by (rule scalar_kernel_correct [where h = ?h and a = 32 and b = 64 and r = 96 and n = 8
          and A = "replicate 8 NaN" and B = "replicate 8 NaN" and R = "replicate 8 NaN"])
      simp_all
  then obtain h1 h2 R' where "fill ?h 32 64 8 = Inr h1" "compute h1 96 32 64 8 = Inr h2"
    "h2 96 = Some R'" "length R' = 8" "take 8 R' = map f32_of_nat [0, 3, 6, 9, 12, 15, 18, 21]"
    by auto
  then show ?thesis by auto
qed

subsection \<open>C3: the two kernels agree on the full lanes\<close>



subsection \<open>C4: the vectorised kernel leaves the tail as it was\<close>

text \<open>
  Claim C4. For every \<open>n >= 0\<close>, with \<open>m = floor(n/4)*4\<close>, after the vectorised kernel every
  element of the result buffer at an index from \<open>m\<close> on (so every index in \<open>[m, n)\<close>) holds
  the value it held before the call. For \<open>n < 4\<close> (so for \<open>n = 1, 2, 3\<close>) the whole result
  buffer is as before, and for \<open>n = 10\<close> the indices 8 and 9 are.
\<close>

theorem vectorized_tail_untouched:
  fixes n :: c_int
  assumes "0 \<le> sint n"
    and "h a = Some A" "h b = Some B" "h r = Some R"
    and "r \<noteq> a" "r \<noteq> b"
    and "nat (sint n) \<le> length A" "nat (sint n) \<le> length B" "nat (sint n) \<le> length R"
    and "16 dvd a" "16 dvd b" "16 dvd r"
  shows "\<exists>hv R'. compute_sse h r a b n = Some (Inr hv) \<and> hv r = Some R' \<and> length R' = length R \<and>
    (\<forall>i. 4 * (nat (sint n) div 4) \<le> i \<and> i < length R \<longrightarrow> R' ! i = R ! i) \<and>
    (sint n < 4 \<longrightarrow> R' = R) \<and>
    (sint n = 10 \<longrightarrow> R' ! 8 = R ! 8 \<and> R' ! 9 = R ! 9)"
proof -
  let ?m = "4 * (nat (sint n) div 4)"
  from compute_sse_spec [OF assms(1,4,2,3,5,6,9,7,8,12,10,11)]
  obtain R' where v: "compute_sse h r a b n = Some (Inr (h(r \<mapsto> R')))"
    and len: "length R' = length R"
    and nth: "\<forall>j<length R. R' ! j = (if j < ?m then fadd (A ! j) (B ! j) else R ! j)"
    by blast
  have tail: "\<forall>i. ?m \<le> i \<and> i < length R \<longrightarrow> R' ! i = R ! i"
    using nth by simp
  have "R' = R" if "sint n < 4"
  proof (rule nth_equalityI)
    show "length R' = length R" by (rule len)
    have "?m = 0" using that assms(1) by simp
    then show "R' ! i = R ! i" if "i < length R'" for i
      using that tail len by simp
  qed
  moreover have "R' ! 8 = R ! 8 \<and> R' ! 9 = R ! 9" if "sint n = 10"
  proof -
    have "?m = 8" "10 \<le> length R" using that assms(9) by simp_all
    with tail show ?thesis by simp
  qed
  moreover have "(h(r \<mapsto> R')) r = Some R'" by simp
  ultimately show ?thesis using v len tail by blast
qed

text \<open>
  The theorem at \<open>n = 10\<close>, on a result buffer of NaNs: indices 8 and 9 still hold NaN.
  At \<open>n = 3\<close> the whole result buffer still holds NaN.
\<close>

theorem vectorized_tail_untouched_witness:
  "(\<exists>hv R'. compute_sse [32 \<mapsto> map f32_of_nat [0..<10], 64 \<mapsto> map f32_of_nat [0..<10],
              96 \<mapsto> replicate 10 NaN] 96 32 64 10 = Some (Inr hv) \<and>
     hv 96 = Some R' \<and> R' ! 8 = NaN \<and> R' ! 9 = NaN) \<and>
   (\<exists>hv. compute_sse [32 \<mapsto> map f32_of_nat [0..<3], 64 \<mapsto> map f32_of_nat [0..<3],
              96 \<mapsto> replicate 3 NaN] 96 32 64 3 = Some (Inr hv) \<and>
     hv 96 = Some (replicate 3 NaN))"
proof
  let ?h = "[32 \<mapsto> map f32_of_nat [0..<10], 64 \<mapsto> map f32_of_nat [0..<10],
              96 \<mapsto> replicate 10 NaN] :: heap"
  have "\<exists>hv R'. compute_sse ?h 96 32 64 10 = Some (Inr hv) \<and> hv 96 = Some R' \<and>
    length R' = length (replicate 10 NaN :: f32 list) \<and>
    (\<forall>i. 4 * (nat (sint (10 :: c_int)) div 4) \<le> i \<and> i < length (replicate 10 NaN :: f32 list) \<longrightarrow>
       R' ! i = replicate 10 NaN ! i) \<and>
    (sint (10 :: c_int) < 4 \<longrightarrow> R' = replicate 10 NaN) \<and>
    (sint (10 :: c_int) = 10 \<longrightarrow> R' ! 8 = replicate 10 NaN ! 8 \<and> R' ! 9 = replicate 10 NaN ! 9)"
    by (rule vectorized_tail_untouched [where h = ?h and a = 32 and b = 64 and r = 96 and n = 10
          and A = "map f32_of_nat [0..<10]" and B = "map f32_of_nat [0..<10]"
          and R = "replicate 10 NaN"])
      simp_all
  then show "\<exists>hv R'. compute_sse ?h 96 32 64 10 = Some (Inr hv) \<and>
     hv 96 = Some R' \<and> R' ! 8 = NaN \<and> R' ! 9 = NaN"
    by auto
next
  let ?h = "[32 \<mapsto> map f32_of_nat [0..<3], 64 \<mapsto> map f32_of_nat [0..<3],
              96 \<mapsto> replicate 3 NaN] :: heap"
  have "\<exists>hv R'. compute_sse ?h 96 32 64 3 = Some (Inr hv) \<and> hv 96 = Some R' \<and>
    length R' = length (replicate 3 NaN :: f32 list) \<and>
    (\<forall>i. 4 * (nat (sint (3 :: c_int)) div 4) \<le> i \<and> i < length (replicate 3 NaN :: f32 list) \<longrightarrow>
       R' ! i = replicate 3 NaN ! i) \<and>
    (sint (3 :: c_int) < 4 \<longrightarrow> R' = replicate 3 NaN) \<and>
    (sint (3 :: c_int) = 10 \<longrightarrow> R' ! 8 = replicate 3 NaN ! 8 \<and> R' ! 9 = replicate 3 NaN ! 9)"
    by (rule vectorized_tail_untouched [where h = ?h and a = 32 and b = 64 and r = 96 and n = 3
          and A = "map f32_of_nat [0..<3]" and B = "map f32_of_nat [0..<3]"
          and R = "replicate 3 NaN"])
      simp_all
  then show "\<exists>hv. compute_sse ?h 96 32 64 3 = Some (Inr hv) \<and> hv 96 = Some (replicate 3 NaN)"
    by auto
qed

subsection \<open>C5: a failed allocation does not abort the run\<close>

text \<open>
  Claim C5 says that a failed allocation aborts the run and that the driver never fills,
  computes on or reads a buffer whose allocation failed. Both programs store the status of
  \<^verbatim>\<open>posix_memalign\<close> in \<^verbatim>\<open>dummy\<close> and never test it. On the platform \<open>first_fails\<close>,
  which refuses the first allocation, the run with 16 elements goes on to the fill loop,
  whose first store goes through the pointer that was never set.
\<close>

theorem failed_allocation_counterexample:
  "alloc1 first_fails = ENOMEM \<and>
   main_simple first_fails ''compute_simple'' [''16''] = ([Using_table 16], Faulted Fill Invalid_access) \<and>
   main_sse first_fails ''compute_sse'' [''16''] = Some ([Using_table 16], Faulted Fill Invalid_access)"
proof -
  have a: "alloc1 first_fails = ENOMEM" "junk1 first_fails \<notin> granted first_fails"
    by (simp_all add: granted_examples) (simp_all add: first_fails_def)
  have c: "[''16''] \<noteq> []" "atoll ([''16''] ! 0) = Some 16"
    by (simp_all add: atoll_def isspace_def isdigit_def)
  have n: "(word_of_int 16 :: size_t) \<noteq> 0" by simp
  from main_failed_first [OF a c n] a(1) show ?thesis by simp
qed

text \<open>
  Claim C5 as amended. When an allocation fails, and the pointer variable it leaves unset
  does not happen to hold the address of a block that was granted, the run is not aborted
  at the allocation: the element count is printed and the run ends at an access outside
  every allocated block, in the fill loop, in the kernel or in the final print. When it is
  the first allocation that fails and the count is not 0, that access is the first store of
  the fill loop.
\<close>

theorem failed_allocation_not_fatal:
  assumes "(alloc1 env = ENOMEM \<and> junk1 env \<notin> granted env) \<or>
      (alloc2 env = ENOMEM \<and> junk2 env \<notin> granted env) \<or>
      (alloc3 env = ENOMEM \<and> junk3 env \<notin> granted env)"
    and "args \<noteq> []" "atoll (args ! 0) = Some v"
  shows "(\<exists>out st e. main_simple env prog args =
            (Using_table (unat (word_of_int v :: size_t)) # out, Faulted st e) \<and> st \<noteq> Parse) \<and>
    (\<exists>out st e. main_sse env prog args =
            Some (Using_table (unat (word_of_int v :: size_t)) # out, Faulted st e) \<and> st \<noteq> Parse) \<and>
    (alloc1 env = ENOMEM \<and> junk1 env \<notin> granted env \<and> (word_of_int v :: size_t) \<noteq> 0 \<longrightarrow>
       main_simple env prog args =
         ([Using_table (unat (word_of_int v :: size_t))], Faulted Fill Invalid_access) \<and>
       main_sse env prog args =
         Some ([Using_table (unat (word_of_int v :: size_t))], Faulted Fill Invalid_access))"
  using main_simple_failed [OF assms] main_sse_failed [OF assms] main_failed_first [OF _ _ assms(2,3)]
  by blast

text \<open>The theorem on the platform \<open>first_fails\<close>, with 8 elements.\<close>

theorem failed_allocation_not_fatal_witness:
  "main_simple first_fails ''compute_simple'' [''8''] = ([Using_table 8], Faulted Fill Invalid_access) \<and>
   main_sse first_fails ''compute_sse'' [''8''] = Some ([Using_table 8], Faulted Fill Invalid_access)"
proof -
  have "alloc1 first_fails = ENOMEM" "junk1 first_fails \<notin> granted first_fails"
    by (simp_all add: granted_examples) (simp_all add: first_fails_def)
  then have a: "(alloc1 first_fails = ENOMEM \<and> junk1 first_fails \<notin> granted first_fails) \<or>
      (alloc2 first_fails = ENOMEM \<and> junk2 first_fails \<notin> granted first_fails) \<or>
      (alloc3 first_fails = ENOMEM \<and> junk3 first_fails \<notin> granted first_fails)"
    and b: "alloc1 first_fails = ENOMEM \<and> junk1 first_fails \<notin> granted first_fails \<and>
      (word_of_int 8 :: size_t) \<noteq> 0"
    by simp_all
  have c: "[''8''] \<noteq> []" "atoll ([''8''] ! 0) = Some 8" by (simp_all add: atoll_examples)
  from failed_allocation_not_fatal [OF a c, of "''compute_simple''"] b
  have "main_simple first_fails ''compute_simple'' [''8''] =
      ([Using_table (unat (word_of_int 8 :: size_t))], Faulted Fill Invalid_access)"
    by blast
  moreover from failed_allocation_not_fatal [OF a c, of "''compute_sse''"] b
  have "main_sse first_fails ''compute_sse'' [''8''] =
      Some ([Using_table (unat (word_of_int 8 :: size_t))], Faulted Fill Invalid_access)"
    by blast
  ultimately show ?thesis by simp
qed

subsection \<open>C6: the driver releases no buffer\<close>

text \<open>
  Claim C6 says that the driver releases its three buffers on every exit path. Neither
  program calls \<^verbatim>\<open>free\<close>. On the platform \<open>all_granted\<close> the run with the argument
  \<^verbatim>\<open>8x\<close> (8 elements) returns with status 0, and the three blocks, at the addresses 32, 64
  and 96, are still allocated.
\<close>

theorem buffers_still_allocated_counterexample:
  "(\<exists>out h. main_simple all_granted ''compute_simple'' [''8x''] = (out, Exited 0 h) \<and>
       h 32 \<noteq> None \<and> h 64 \<noteq> None \<and> h 96 \<noteq> None) \<and>
   (\<exists>out h. main_sse all_granted ''compute_sse'' [''8x''] = Some (out, Exited 0 h) \<and>
       h 32 \<noteq> None \<and> h 64 \<noteq> None \<and> h 96 \<noteq> None)"
proof
  from granted_runs(1) obtain out h
    where "main_simple all_granted ''compute_simple'' [''8x''] = (out, Exited 0 h)"
      and "dom h = {32, 64, 96}"
    by blast
  moreover from this(2) have "h 32 \<noteq> None \<and> h 64 \<noteq> None \<and> h 96 \<noteq> None"
    by (simp add: set_eq_iff domIff)
  ultimately show "\<exists>out h. main_simple all_granted ''compute_simple'' [''8x''] = (out, Exited 0 h) \<and>
       h 32 \<noteq> None \<and> h 64 \<noteq> None \<and> h 96 \<noteq> None"
    by blast
next
  from granted_runs(2) obtain out h
    where "main_sse all_granted ''compute_sse'' [''8x''] = Some (out, Exited 0 h)"
      and "dom h = {32, 64, 96}"
    by blast
  moreover from this(2) have "h 32 \<noteq> None \<and> h 64 \<noteq> None \<and> h 96 \<noteq> None"
    by (simp add: set_eq_iff domIff)
  ultimately show "\<exists>out h. main_sse all_granted ''compute_sse'' [''8x''] = Some (out, Exited 0 h) \<and>
       h 32 \<noteq> None \<and> h 64 \<noteq> None \<and> h 96 \<noteq> None"
    by blast
qed

text \<open>
  Claim C6 as amended. \<^verbatim>\<open>main\<close> has two exit paths. When it returns 1, for a missing
  argument, no buffer was allocated. When it returns 0, the allocated blocks are exactly
  the blocks that \<^verbatim>\<open>posix_memalign\<close> granted: none has been released.
\<close>

theorem buffers_never_released:
  "(main_simple env prog args = (out, Exited st h) \<longrightarrow>
      (args = [] \<and> st = 1 \<and> h = Map.empty) \<or> (args \<noteq> [] \<and> st = 0 \<and> dom h = granted env)) \<and>
   (main_sse env prog args = Some (out, Exited st h) \<longrightarrow>
      (args = [] \<and> st = 1 \<and> h = Map.empty) \<or> (args \<noteq> [] \<and> st = 0 \<and> dom h = granted env))"
proof (intro conjI impI)
  assume "main_simple env prog args = (out, Exited st h)"
  then show "(args = [] \<and> st = 1 \<and> h = Map.empty) \<or> (args \<noteq> [] \<and> st = 0 \<and> dom h = granted env)"
    by (rule main_simple_exit)
next
  assume "main_sse env prog args = Some (out, Exited st h)"
  then show "(args = [] \<and> st = 1 \<and> h = Map.empty) \<or> (args \<noteq> [] \<and> st = 0 \<and> dom h = granted env)"
    by (rule main_sse_exit)
qed

text \<open>The theorem on the platform \<open>all_granted\<close>, with 8 elements.\<close>

theorem buffers_never_released_witness:
  "(\<exists>out h. main_simple all_granted ''compute_simple'' [''8x''] = (out, Exited 0 h) \<and>
       dom h = granted all_granted) \<and>
   (\<exists>out h. main_sse all_granted ''compute_sse'' [''8x''] = Some (out, Exited 0 h) \<and>
       dom h = granted all_granted)"
proof
  from granted_runs(1) obtain out h
    where run: "main_simple all_granted ''compute_simple'' [''8x''] = (out, Exited 0 h)"
    by blast
  with buffers_never_released [of all_granted "''compute_simple''" "[''8x'']" out 0 h]
  have "dom h = granted all_granted" by simp
  with run show "\<exists>out h. main_simple all_granted ''compute_simple'' [''8x''] = (out, Exited 0 h) \<and>
       dom h = granted all_granted"
    by blast
next
  from granted_runs(2) obtain out h
    where run: "main_sse all_granted ''compute_sse'' [''8x''] = Some (out, Exited 0 h)"
    by blast
  with buffers_never_released [of all_granted "''compute_sse''" "[''8x'']" out 0 h]
  have "dom h = granted all_granted" by simp
  with run show "\<exists>out h. main_sse all_granted ''compute_sse'' [''8x''] = Some (out, Exited 0 h) \<and>
       dom h = granted all_granted"
    by blast
qed

subsection \<open>C7: only a missing argument is rejected\<close>




subsection \<open>C8: the element count 0\<close>



subsection \<open>C9: the kernels do not change their inputs\<close>

text \<open>
  Claim C9. After \<^verbatim>\<open>compute(r, a, b, n)\<close>, for every \<^verbatim>\<open>size_t\<close> \<open>n\<close>, and after
  \<^verbatim>\<open>compute_sse(r, a, b, m)\<close>, for every \<^verbatim>\<open>int\<close> \<open>m >= 0\<close>, the buffers \<open>a\<close> and \<open>b\<close>
  hold what they held before, and so does every block of the heap other than \<open>r\<close>.
  The result buffer \<open>r\<close> is a block of its own, different from \<open>a\<close> and \<open>b\<close>.
\<close>

theorem kernels_leave_inputs:
  fixes n :: size_t and m :: c_int
  assumes "h a = Some A" "h b = Some B" "h r = Some R"
    and "r \<noteq> a" "r \<noteq> b"
    and "unat n \<le> length A" "unat n \<le> length B" "unat n \<le> length R"
    and "0 \<le> sint m"
    and "nat (sint m) \<le> length A" "nat (sint m) \<le> length B" "nat (sint m) \<le> length R"
    and "16 dvd a" "16 dvd b" "16 dvd r"
  shows "(\<exists>hs. compute h r a b n = Inr hs \<and> hs a = Some A \<and> hs b = Some B \<and>
           (\<forall>p. p \<noteq> r \<longrightarrow> hs p = h p)) \<and>
         (\<exists>hv. compute_sse h r a b m = Some (Inr hv) \<and> hv a = Some A \<and> hv b = Some B \<and>
           (\<forall>p. p \<noteq> r \<longrightarrow> hv p = h p))"
proof
  from compute_spec [OF assms(3,1,2,4,5,8,6,7)]
  obtain Rs where "compute h r a b n = Inr (h(r \<mapsto> Rs))" by blast
  moreover have "(h(r \<mapsto> Rs)) a = Some A" "(h(r \<mapsto> Rs)) b = Some B"
    "\<forall>p. p \<noteq> r \<longrightarrow> (h(r \<mapsto> Rs)) p = h p"
    using assms(1,2,4,5) by simp_all
  ultimately show "\<exists>hs. compute h r a b n = Inr hs \<and> hs a = Some A \<and> hs b = Some B \<and>
           (\<forall>p. p \<noteq> r \<longrightarrow> hs p = h p)"
    by blast
next
  from compute_sse_spec [OF assms(9,3,1,2,4,5,12,10,11,15,13,14)]
  obtain Rv where "compute_sse h r a b m = Some (Inr (h(r \<mapsto> Rv)))" by blast
  moreover have "(h(r \<mapsto> Rv)) a = Some A" "(h(r \<mapsto> Rv)) b = Some B"
    "\<forall>p. p \<noteq> r \<longrightarrow> (h(r \<mapsto> Rv)) p = h p"
    using assms(1,2,4,5) by simp_all
  ultimately show "\<exists>hv. compute_sse h r a b m = Some (Inr hv) \<and> hv a = Some A \<and> hv b = Some B \<and>
           (\<forall>p. p \<noteq> r \<longrightarrow> hv p = h p)"
    by blast
qed

text \<open>The theorem at \<open>n = m = 8\<close>.\<close>

theorem kernels_leave_inputs_witness:
  "(\<exists>hs. compute [32 \<mapsto> map f32_of_nat [0..<8], 64 \<mapsto> map f32_of_nat [8..<16],
              96 \<mapsto> replicate 8 NaN] 96 32 64 8 = Inr hs \<and>
       hs 32 = Some (map f32_of_nat [0..<8]) \<and> hs 64 = Some (map f32_of_nat [8..<16])) \<and>
   (\<exists>hv. compute_sse [32 \<mapsto> map f32_of_nat [0..<8], 64 \<mapsto> map f32_of_nat [8..<16],
              96 \<mapsto> replicate 8 NaN] 96 32 64 8 = Some (Inr hv) \<and>
       hv 32 = Some (map f32_of_nat [0..<8]) \<and> hv 64 = Some (map f32_of_nat [8..<16]))"
proof -
  let ?h = "[32 \<mapsto> map f32_of_nat [0..<8], 64 \<mapsto> map f32_of_nat [8..<16],
              96 \<mapsto> replicate 8 NaN] :: heap"
  have "(\<exists>hs. compute ?h 96 32 64 8 = Inr hs \<and> hs 32 = Some (map f32_of_nat [0..<8]) \<and>
           hs 64 = Some (map f32_of_nat [8..<16]) \<and> (\<forall>p. p \<noteq> 96 \<longrightarrow> hs p = ?h p)) \<and>
         (\<exists>hv. compute_sse ?h 96 32 64 8 = Some (Inr hv) \<and> hv 32 = Some (map f32_of_nat [0..<8]) \<and>
           hv 64 = Some (map f32_of_nat [8..<16]) \<and> (\<forall>p. p \<noteq> 96 \<longrightarrow> hv p = ?h p))"
    by (rule kernels_leave_inputs [where h = ?h and a = 32 and b = 64 and r = 96 and n = 8 and m = 8
          and A = "map f32_of_nat [0..<8]" and B = "map f32_of_nat [8..<16]"
          and R = "replicate 8 NaN"])
      simp_all
  then show ?thesis by blast
qed

subsection \<open>C10: the driver narrows the element count for the vectorised kernel\<close>

text \<open>
  Claim C10. \<^verbatim>\<open>main\<close> of compute\_sse.c passes its \<^verbatim>\<open>size_t\<close> count \<open>n\<close> to the \<^verbatim>\<open>int\<close>
  parameter of the kernel, which receives \<open>ucast n\<close>. The length of the prefix the
  kernel processes, \<open>nsse_of (ucast n)\<close>, is computed from the narrowed value converted
  back to \<^verbatim>\<open>size_t\<close>. It is \<open>floor(n/4)*4\<close> when \<open>n <= INT_MAX\<close>; it differs from
  \<open>floor(n/4)*4\<close> for every \<open>n\<close> with \<open>2^31 <= n < 2^64 - 2^31\<close>; and when the narrowed
  value is negative it is at least \<open>2^64 - 2^31\<close>. On buffers with room for that prefix the
  kernel writes exactly the indices below it. The scalar kernel, whose parameter is a
  \<^verbatim>\<open>size_t\<close>, writes exactly the indices below \<open>n\<close>. For the whole program: when the
  three allocations are granted at distinct addresses, the argument reads as \<open>n\<close> with
  \<open>4 <= n < 2^62\<close> and the prefix fits in the buffers, \<^verbatim>\<open>main\<close> of compute\_sse.c exits
  with 0 and its result buffer holds the sums below the prefix and its initial content
  from the prefix on.
\<close>

theorem narrowed_count_prefix:
  fixes n :: size_t
  shows "unat (nsse_of (ucast n)) = 4 * (unat (scast (ucast n :: c_int) :: size_t) div 4) \<and>
    (unat n < 2 ^ 31 \<longrightarrow> unat (nsse_of (ucast n)) = 4 * (unat n div 4)) \<and>
    (2 ^ 31 \<le> unat n \<and> unat n < 2 ^ 64 - 2 ^ 31 \<longrightarrow> unat (nsse_of (ucast n)) \<noteq> 4 * (unat n div 4)) \<and>
    (sint (ucast n :: c_int) < 0 \<longrightarrow> 2 ^ 64 - 2 ^ 31 \<le> unat (nsse_of (ucast n))) \<and>
    (h r = Some R \<and> h a = Some A \<and> h b = Some B \<and> r \<noteq> a \<and> r \<noteq> b \<and>
     16 dvd r \<and> 16 dvd a \<and> 16 dvd b \<and>
     unat (nsse_of (ucast n)) \<le> length R \<and> unat (nsse_of (ucast n)) \<le> length A \<and>
     unat (nsse_of (ucast n)) \<le> length B \<longrightarrow>
       (\<exists>R'. compute_sse h r a b (ucast n) = Some (Inr (h(r \<mapsto> R'))) \<and> length R' = length R \<and>
          (\<forall>j<length R. R' ! j =
             (if j < unat (nsse_of (ucast n)) then fadd (A ! j) (B ! j) else R ! j)))) \<and>
    (h r = Some R \<and> h a = Some A \<and> h b = Some B \<and> r \<noteq> a \<and> r \<noteq> b \<and>
     unat n \<le> length R \<and> unat n \<le> length A \<and> unat n \<le> length B \<longrightarrow>
       (\<exists>R'. compute h r a b n = Inr (h(r \<mapsto> R')) \<and> length R' = length R \<and>
          (\<forall>j<length R. R' ! j = (if j < unat n then fadd (A ! j) (B ! j) else R ! j)))) \<and>
    (alloc1 env = Granted k1 g1 \<and> alloc2 env = Granted k2 g2 \<and> alloc3 env = Granted k3 g3 \<and>
     k1 \<noteq> k2 \<and> k1 \<noteq> k3 \<and> k2 \<noteq> k3 \<and> args \<noteq> [] \<and> atoll (args ! 0) = Some (uint n) \<and>
     4 \<le> unat n \<and> unat n < 2 ^ 62 \<and> unat (nsse_of (ucast n)) \<le> unat n \<longrightarrow>
       (\<exists>out h' R'. main_sse env prog args = Some (out, Exited 0 h') \<and>
          h' (32 * k3) = Some R' \<and> length R' = unat n \<and>
          (\<forall>i<unat n. R' ! i =
             (if i < unat (nsse_of (ucast n)) then fadd (f32_of_nat i) (f32_of_nat (2 * i))
              else g3 i))))"
proof (intro conjI impI)
  let ?c = "ucast n :: c_int"
  let ?X = "unat (scast ?c :: size_t)"
  show eq: "unat (nsse_of ?c) = 4 * (?X div 4)" by (rule unat_nsse_of)
  show "unat (nsse_of ?c) = 4 * (unat n div 4)" if "unat n < 2 ^ 31"
    using that by (simp only: eq narrowed_small)
  show "unat (nsse_of ?c) \<noteq> 4 * (unat n div 4)" if "2 ^ 31 \<le> unat n \<and> unat n < 2 ^ 64 - 2 ^ 31"
  proof
    assume "unat (nsse_of ?c) = 4 * (unat n div 4)"
    then have "4 * (?X div 4) = 4 * (unat n div 4)" by (simp only: eq)
    with narrowed_congruent [of n] have "?X = unat n" by (rule same_prefix_same_count)
    with narrowed_range [of ?c] that show False by simp
  qed
  show "2 ^ 64 - 2 ^ 31 \<le> unat (nsse_of ?c)" if "sint ?c < 0"
  proof -
    from that have "2 ^ 64 - 2 ^ 31 \<le> ?X" by (rule narrowed_negative)
    then have "(2 ^ 64 - 2 ^ 31) div 4 \<le> ?X div 4" by (rule div_le_mono)
    then have "4 * ((2 ^ 64 - 2 ^ 31) div 4) \<le> 4 * (?X div 4)" by simp
    then show ?thesis by (simp add: eq)
  qed
  show "\<exists>R'. compute_sse h r a b ?c = Some (Inr (h(r \<mapsto> R'))) \<and> length R' = length R \<and>
          (\<forall>j<length R. R' ! j = (if j < unat (nsse_of ?c) then fadd (A ! j) (B ! j) else R ! j))"
    if "h r = Some R \<and> h a = Some A \<and> h b = Some B \<and> r \<noteq> a \<and> r \<noteq> b \<and>
     16 dvd r \<and> 16 dvd a \<and> 16 dvd b \<and>
     unat (nsse_of ?c) \<le> length R \<and> unat (nsse_of ?c) \<le> length A \<and>
     unat (nsse_of ?c) \<le> length B"
    using that by (intro compute_sse_spec_general) simp_all
  show "\<exists>R'. compute h r a b n = Inr (h(r \<mapsto> R')) \<and> length R' = length R \<and>
          (\<forall>j<length R. R' ! j = (if j < unat n then fadd (A ! j) (B ! j) else R ! j))"
    if "h r = Some R \<and> h a = Some A \<and> h b = Some B \<and> r \<noteq> a \<and> r \<noteq> b \<and>
     unat n \<le> length R \<and> unat n \<le> length A \<and> unat n \<le> length B"
    using that by (intro compute_spec) simp_all
  show "\<exists>out h' R'. main_sse env prog args = Some (out, Exited 0 h') \<and>
          h' (32 * k3) = Some R' \<and> length R' = unat n \<and>
          (\<forall>i<unat n. R' ! i =
             (if i < unat (nsse_of ?c) then fadd (f32_of_nat i) (f32_of_nat (2 * i)) else g3 i))"
    if "alloc1 env = Granted k1 g1 \<and> alloc2 env = Granted k2 g2 \<and> alloc3 env = Granted k3 g3 \<and>
     k1 \<noteq> k2 \<and> k1 \<noteq> k3 \<and> k2 \<noteq> k3 \<and> args \<noteq> [] \<and> atoll (args ! 0) = Some (uint n) \<and>
     4 \<le> unat n \<and> unat n < 2 ^ 62 \<and> unat (nsse_of ?c) \<le> unat n"
  proof -
    from that have "\<exists>h' R'. main_sse env prog args =
      Some ([Using_table (unat n),
        Exec_time ''Execution time using manual sse'' (start_tv env) (end_tv env),
        Values (R' ! 0) (R' ! 1) (R' ! 2) (R' ! 3)], Exited 0 h') \<and>
      dom h' = {32 * k1, 32 * k2, 32 * k3} \<and> h' (32 * k3) = Some R' \<and> length R' = unat n \<and>
      (\<forall>i<unat n. R' ! i =
         (if i < unat (nsse_of ?c) then fadd (f32_of_nat i) (f32_of_nat (2 * i)) else g3 i))"
      by (intro main_sse_granted_general) simp_all
    then show ?thesis by blast
  qed
qed

text \<open>
  The theorem at \<open>n = 2^32 + 8\<close>: the vectorised kernel processes 8 elements and leaves
  index 8 as it was, the scalar kernel writes index 8, and the run of compute\_sse.c with
  the argument \<^verbatim>\<open>4294967304\<close> exits with 0 having computed index 7 and not index 8. At
  \<open>n = 10\<close> the prefix is 8, as for the original count. At \<open>n = 2^31\<close> the narrowed
  value is negative.
\<close>

theorem narrowed_count_prefix_witness:
  "unat (nsse_of (ucast (4294967304 :: size_t))) = 8 \<and>
   unat (nsse_of (ucast (4294967304 :: size_t))) \<noteq> 4 * (unat (4294967304 :: size_t) div 4) \<and>
   (\<exists>R'. compute_sse [32 \<mapsto> replicate 4294967304 (Infinity False),
                       64 \<mapsto> replicate 4294967304 (Infinity False),
                       96 \<mapsto> replicate 4294967304 NaN] 96 32 64 (ucast (4294967304 :: size_t)) =
           Some (Inr ([32 \<mapsto> replicate 4294967304 (Infinity False),
                       64 \<mapsto> replicate 4294967304 (Infinity False), 96 \<mapsto> R'])) \<and>
         R' ! 7 = Infinity False \<and> R' ! 8 = NaN) \<and>
   (\<exists>R'. compute [32 \<mapsto> replicate 4294967304 (Infinity False),
                   64 \<mapsto> replicate 4294967304 (Infinity False),
                   96 \<mapsto> replicate 4294967304 NaN] 96 32 64 4294967304 =
           Inr ([32 \<mapsto> replicate 4294967304 (Infinity False),
                 64 \<mapsto> replicate 4294967304 (Infinity False), 96 \<mapsto> R']) \<and>
         R' ! 8 = Infinity False) \<and>
   (\<exists>out h' R'. main_sse all_granted ''compute_sse'' [''4294967304''] = Some (out, Exited 0 h') \<and>
      h' 96 = Some R' \<and> length R' = 4294967304 \<and>
      R' ! 7 = fadd (f32_of_nat 7) (f32_of_nat 14) \<and> R' ! 8 = NaN) \<and>
   unat (nsse_of (ucast (10 :: size_t))) = 4 * (unat (10 :: size_t) div 4) \<and>
   sint (ucast (2147483648 :: size_t) :: c_int) < 0 \<and>
   2 ^ 64 - 2 ^ 31 \<le> unat (nsse_of (ucast (2147483648 :: size_t)))"
proof -
  let ?h = "[32 \<mapsto> replicate 4294967304 (Infinity False),
             64 \<mapsto> replicate 4294967304 (Infinity False),
             96 \<mapsto> replicate 4294967304 NaN] :: heap"
  let ?n = "4294967304 :: size_t"
  have m: "unat (scast (ucast ?n :: c_int) :: size_t) = 8" by simp
  note inst = narrowed_count_prefix [where n = ?n and h = ?h and r = 96 and a = 32 and b = 64
      and R = "replicate 4294967304 NaN" and A = "replicate 4294967304 (Infinity False)"
      and B = "replicate 4294967304 (Infinity False)" and env = all_granted
      and ?k1.0 = 1 and ?k2.0 = 2 and ?k3.0 = 3 and ?g1.0 = "\<lambda>i. NaN" and ?g2.0 = "\<lambda>i. NaN" and ?g3.0 = "\<lambda>i. NaN"
      and args = "[''4294967304'']" and prog = "''compute_sse''"]
  from inst have p: "unat (nsse_of (ucast ?n)) = 8" by (simp only: m) simp
  from inst have "unat (nsse_of (ucast ?n)) \<noteq> 4 * (unat ?n div 4)" by simp
  moreover from inst have "\<exists>R'. compute_sse ?h 96 32 64 (ucast ?n) = Some (Inr (?h(96 \<mapsto> R'))) \<and>
      length R' = length (replicate 4294967304 NaN :: f32 list) \<and>
      (\<forall>j<length (replicate 4294967304 NaN :: f32 list). R' ! j =
         (if j < 8
          then fadd (replicate 4294967304 (Infinity False) ! j) (replicate 4294967304 (Infinity False) ! j)
          else replicate 4294967304 NaN ! j))"
    by (simp only: p) simp
  then have "\<exists>R'. compute_sse ?h 96 32 64 (ucast ?n) = Some (Inr (?h(96 \<mapsto> R'))) \<and>
      R' ! 7 = Infinity False \<and> R' ! 8 = NaN"
    by auto
  moreover from inst have "\<exists>R'. compute ?h 96 32 64 ?n = Inr (?h(96 \<mapsto> R')) \<and>
      length R' = length (replicate 4294967304 NaN :: f32 list) \<and>
      (\<forall>j<length (replicate 4294967304 NaN :: f32 list). R' ! j =
         (if j < unat ?n
          then fadd (replicate 4294967304 (Infinity False) ! j) (replicate 4294967304 (Infinity False) ! j)
          else replicate 4294967304 NaN ! j))"
    by simp
  then have "\<exists>R'. compute ?h 96 32 64 ?n = Inr (?h(96 \<mapsto> R')) \<and> R' ! 8 = Infinity False"
    by auto
  moreover have "\<exists>out h' R'. main_sse all_granted ''compute_sse'' [''4294967304''] =
        Some (out, Exited 0 h') \<and> h' 96 = Some R' \<and> length R' = 4294967304 \<and>
        R' ! 7 = fadd (f32_of_nat 7) (f32_of_nat 14) \<and> R' ! 8 = NaN"
  proof -
    have "alloc1 all_granted = Granted 1 (\<lambda>i. NaN) \<and> alloc2 all_granted = Granted 2 (\<lambda>i. NaN) \<and>
      alloc3 all_granted = Granted 3 (\<lambda>i. NaN) \<and> (1::nat) \<noteq> 2 \<and> (1::nat) \<noteq> 3 \<and> (2::nat) \<noteq> 3 \<and>
      [''4294967304''] \<noteq> [] \<and> atoll ([''4294967304''] ! 0) = Some (uint ?n) \<and>
      4 \<le> unat ?n \<and> unat ?n < 2 ^ 62 \<and> unat (nsse_of (ucast ?n)) \<le> unat ?n"
    proof -
      have q: "unat (nsse_of (ucast ?n)) \<le> unat ?n" using p by simp
      have e: "alloc1 all_granted = Granted 1 (\<lambda>i. NaN) \<and> alloc2 all_granted = Granted 2 (\<lambda>i. NaN) \<and>
        alloc3 all_granted = Granted 3 (\<lambda>i. NaN)"
        by (simp add: all_granted_def)
      have t: "atoll ([''4294967304''] ! 0) = Some (uint ?n)"
        by (simp add: atoll_def isspace_def isdigit_def)
      have u: "4 \<le> unat ?n \<and> unat ?n < 2 ^ 62" by simp
      have d: "(1::nat) \<noteq> 2 \<and> (1::nat) \<noteq> 3 \<and> (2::nat) \<noteq> 3 \<and> [''4294967304''] \<noteq> []"
        by simp
      from q e t u d show ?thesis by blast
    qed
    with inst have "\<exists>out h' R'. main_sse all_granted ''compute_sse'' [''4294967304''] =
          Some (out, Exited 0 h') \<and> h' (32 * 3) = Some R' \<and> length R' = unat ?n \<and>
          (\<forall>i<unat ?n. R' ! i =
             (if i < unat (nsse_of (ucast ?n)) then fadd (f32_of_nat i) (f32_of_nat (2 * i))
              else NaN))"
      by blast
    then have "\<exists>out h' R'. main_sse all_granted ''compute_sse'' [''4294967304''] =
          Some (out, Exited 0 h') \<and> h' (32 * 3) = Some R' \<and> length R' = unat ?n \<and>
          (\<forall>i<unat ?n. R' ! i =
             (if i < 8 then fadd (f32_of_nat i) (f32_of_nat (2 * i)) else NaN))"
      by (simp only: p)
    then obtain out h' R' where
      run: "main_sse all_granted ''compute_sse'' [''4294967304''] = Some (out, Exited 0 h')"
      "h' 96 = Some R'" "length R' = 4294967304"
      and nth: "\<forall>i<4294967304. R' ! i =
             (if i < 8 then fadd (f32_of_nat i) (f32_of_nat (2 * i)) else NaN)"
      by auto
    from nth have "R' ! 7 = fadd (f32_of_nat 7) (f32_of_nat 14)" "R' ! 8 = NaN" by simp_all
    with run show ?thesis by blast
  qed
  moreover from narrowed_count_prefix [where n = 10]
  have "unat (nsse_of (ucast (10 :: size_t))) = 4 * (unat (10 :: size_t) div 4)" by simp
  moreover have neg: "sint (ucast (2147483648 :: size_t) :: c_int) < 0" by simp
  moreover from narrowed_count_prefix [where n = 2147483648] neg
  have "2 ^ 64 - 2 ^ 31 \<le> unat (nsse_of (ucast (2147483648 :: size_t)))" by blast
  ultimately show ?thesis using p by simp
qed

end
